theory Spec2Isabelle
  imports Complex_Main "HOL-Library.AList"
begin

section \<open>JavaScript strings\<close>

text \<open>
  A string is a list of characters, each character standing for the UTF-16 code unit
  of the same value: the model covers the strings whose code units are below 256
  (ASCII and Latin-1), which include the URLs, tag names and computed CSS values the
  program handles. On these strings the operations below are the JavaScript ones:
  \<open>toLowerCase\<close> maps \<open>A..Z\<close> to \<open>a..z\<close> and the upper-case letters U+00C0 to U+00DE
  (the sign U+00D7 apart) to the letters 32 places on, and leaves every other character
  alone; the white space of \<open>\s\<close> and of \<open>trim\<close> is tab, line feed, vertical tab, form
  feed, carriage return, space and the no-break space U+00A0.
\<close>

definition lowerChar :: "char \<Rightarrow> char" where
  "lowerChar c =
     (case map_of
         (zip (''ABCDEFGHIJKLMNOPQRSTUVWXYZ'' @
           [CHR 0xC0, CHR 0xC1, CHR 0xC2, CHR 0xC3, CHR 0xC4, CHR 0xC5, CHR 0xC6, CHR 0xC7,
            CHR 0xC8, CHR 0xC9, CHR 0xCA, CHR 0xCB, CHR 0xCC, CHR 0xCD, CHR 0xCE, CHR 0xCF,
            CHR 0xD0, CHR 0xD1, CHR 0xD2, CHR 0xD3, CHR 0xD4, CHR 0xD5, CHR 0xD6, CHR 0xD8,
            CHR 0xD9, CHR 0xDA, CHR 0xDB, CHR 0xDC, CHR 0xDD, CHR 0xDE])
          (''abcdefghijklmnopqrstuvwxyz'' @
           [CHR 0xE0, CHR 0xE1, CHR 0xE2, CHR 0xE3, CHR 0xE4, CHR 0xE5, CHR 0xE6, CHR 0xE7,
            CHR 0xE8, CHR 0xE9, CHR 0xEA, CHR 0xEB, CHR 0xEC, CHR 0xED, CHR 0xEE, CHR 0xEF,
            CHR 0xF0, CHR 0xF1, CHR 0xF2, CHR 0xF3, CHR 0xF4, CHR 0xF5, CHR 0xF6, CHR 0xF8,
            CHR 0xF9, CHR 0xFA, CHR 0xFB, CHR 0xFC, CHR 0xFD, CHR 0xFE])) c of
        None \<Rightarrow> c
      | Some l \<Rightarrow> l)"

definition toLowerCase :: "string \<Rightarrow> string" where
  "toLowerCase s = map lowerChar s"

fun startsWith :: "string \<Rightarrow> string \<Rightarrow> bool" where
  "startsWith s [] = True"
| "startsWith [] (p # ps) = False"
| "startsWith (c # cs) (p # ps) = (c = p \<and> startsWith cs ps)"

text \<open>\<open>s.includes(p)\<close>: \<open>p\<close> occurs in \<open>s\<close> as a contiguous substring.\<close>

fun includesStr :: "string \<Rightarrow> string \<Rightarrow> bool" where
  "includesStr [] p = (p = [])"
| "includesStr (c # cs) p = (startsWith (c # cs) p \<or> includesStr cs p)"

definition isSpace :: "char \<Rightarrow> bool" where
  "isSpace c =
     (c \<in> set [CHR 0x09, CHR 0x0A, CHR 0x0B, CHR 0x0C, CHR 0x0D, CHR '' '', CHR 0xA0])"

text \<open>\<open>s.replace(/\s+/g, " ")\<close>: every maximal run of white space becomes one space.\<close>

function collapseSpaces :: "string \<Rightarrow> string" where
  "collapseSpaces [] = []"
| "collapseSpaces (c # cs) =
     (if isSpace c then CHR '' '' # collapseSpaces (dropWhile isSpace cs)
      else c # collapseSpaces cs)"
  by pat_completeness auto
termination
  by (relation "measure length") (auto simp: length_dropWhile_le le_imp_less_Suc)

definition trim :: "string \<Rightarrow> string" where
  "trim s = rev (dropWhile isSpace (rev (dropWhile isSpace s)))"

section \<open>Network correlator: classification of URLs\<close>

definition apiPatterns :: "string list" where
  "apiPatterns = [''/api/'', ''/graphql'', ''/rest/'', ''app.asana.com/api'']"

definition excludePatterns :: "string list" where
  "excludePatterns =
     [''.js'', ''.css'', ''.png'', ''.jpg'', ''.jpeg'', ''.gif'', ''.svg'', ''.woff'',
      ''.woff2'', ''.ttf'', ''.ico'', ''analytics'', ''tracking'', ''segment.io'',
      ''google-analytics'']"

definition isApiCall :: "string \<Rightarrow> bool" where
  "isApiCall u =
     (let lowerUrl = toLowerCase u;
          isApi = list_ex (\<lambda>pattern. includesStr lowerUrl pattern) apiPatterns;
          isNotExcluded = \<not> list_ex (\<lambda>pattern. includesStr lowerUrl pattern) excludePatterns
      in isApi \<and> isNotExcluded)"

section \<open>Network correlator: request and response events\<close>

text \<open>
  \<open>captureNetworkTraffic\<close> registers two listeners on the page and returns two
  accessors. Its state is the finalized list \<open>apiCalls\<close> and the pending map
  \<open>requestMap\<close>, keyed by the identity of the request object (a natural number here).
  What the browser and the runtime supply is part of each event: the result of
  \<open>generateId()\<close> and of \<open>Date.now()\<close>, whether \<open>response.text()\<close> resolved
  (\<open>None\<close> when it rejected), and what \<open>JSON.parse\<close> does on that text (\<open>None\<close> when
  it throws). Each listener runs as one step; for the response listener, which waits
  for the body, that is the moment the read completes.
\<close>

datatype json =
    JNull
  | JBool bool
  | JNum rat
  | JStr string
  | JArr "json list"
  | JObj "(string \<times> json) list"

datatype body = BodyNull | BodyText string | BodyJson json

record request_event =
  req_identity :: nat
  req_url :: string
  req_method :: string
  req_headers :: "(string \<times> string) list"
  req_postData :: "string option"
  req_generatedId :: string
  req_now :: nat

record response_event =
  resp_request :: nat
  resp_url :: string
  resp_status :: nat
  resp_headers :: "(string \<times> string) list"
  resp_text :: "string option"
  resp_jsonParse :: "json option"

record request_data =
  rd_id :: string
  rd_url :: string
  rd_method :: string
  rd_headers :: "(string \<times> string) list"
  rd_postData :: "string option"
  rd_timestamp :: nat

record response_data =
  rs_status :: nat
  rs_headers :: "(string \<times> string) list"
  rs_body :: body
  rs_contentType :: string

record api_call =
  ac_request :: request_data
  ac_response :: response_data

record capture_state =
  apiCalls :: "api_call list"
  requestMap :: "nat \<rightharpoonup> request_data"
  files :: "string \<rightharpoonup> api_call list"
  errorLog :: nat

datatype event =
    Request request_event
  | Response response_event
  | SaveToFile string
  | GetApiCalls

definition initial_capture :: capture_state where
  "initial_capture = \<lparr>apiCalls = [], requestMap = Map.empty, files = Map.empty, errorLog = 0\<rparr>"

definition on_request :: "request_event \<Rightarrow> capture_state \<Rightarrow> capture_state" where
  "on_request request st =
     (if isApiCall (req_url request) then
        st\<lparr>requestMap := (requestMap st)(req_identity request \<mapsto>
             \<lparr>rd_id = req_generatedId request, rd_url = req_url request,
              rd_method = req_method request, rd_headers = req_headers request,
              rd_postData = req_postData request, rd_timestamp = req_now request\<rparr>)\<rparr>
      else st)"

text \<open>
  The body of the \<open>try\<close> block: \<open>Inl ()\<close> when \<open>JSON.parse\<close> throws, otherwise the
  record that is pushed. \<open>response.text().catch(() => null)\<close> turns a failed read into
  \<open>null\<close>, and \<open>contentType.includes("application/json") && responseBody\<close> is falsy for
  \<open>null\<close> and for the empty string, in which case the body is \<open>responseBody\<close> itself.
\<close>

definition contentTypeOf :: "response_event \<Rightarrow> string" where
  "contentTypeOf response =
     (case map_of (resp_headers response) ''content-type'' of
        None \<Rightarrow> []
      | Some v \<Rightarrow> v)"

definition build_apiCall :: "request_data \<Rightarrow> response_event \<Rightarrow> unit + api_call" where
  "build_apiCall requestData response =
     (let responseBody = resp_text response;
          contentType = contentTypeOf response;
          mk = (\<lambda>b. \<lparr>ac_request = requestData,
                      ac_response = \<lparr>rs_status = resp_status response,
                                      rs_headers = resp_headers response,
                                      rs_body = b, rs_contentType = contentType\<rparr>\<rparr>)
      in case responseBody of
           None \<Rightarrow> Inr (mk BodyNull)
         | Some t \<Rightarrow>
             if includesStr contentType ''application/json'' \<and> t \<noteq> [] then
               (case resp_jsonParse response of
                  None \<Rightarrow> Inl ()
                | Some j \<Rightarrow> Inr (mk (BodyJson j)))
             else Inr (mk (BodyText t)))"

text \<open>
  The \<open>catch\<close> block only logs (counted in \<open>errorLog\<close>); \<open>requestMap.delete\<close> follows
  the \<open>try\<close> statement on both paths.
\<close>

definition on_response :: "response_event \<Rightarrow> capture_state \<Rightarrow> capture_state" where
  "on_response response st =
     (case requestMap st (resp_request response) of
        None \<Rightarrow> st
      | Some requestData \<Rightarrow>
          if isApiCall (resp_url response) then
            (let st' = (case build_apiCall requestData response of
                          Inr apiCall \<Rightarrow> st\<lparr>apiCalls := apiCalls st @ [apiCall]\<rparr>
                        | Inl _ \<Rightarrow> st\<lparr>errorLog := errorLog st + 1\<rparr>)
             in st'\<lparr>requestMap := (requestMap st')(resp_request response := None)\<rparr>)
          else st)"

definition saveToFile :: "string \<Rightarrow> capture_state \<Rightarrow> capture_state \<times> api_call list" where
  "saveToFile filename st = (st\<lparr>files := (files st)(filename \<mapsto> apiCalls st)\<rparr>, apiCalls st)"

definition getApiCalls :: "capture_state \<Rightarrow> api_call list" where
  "getApiCalls st = apiCalls st"

fun step :: "event \<Rightarrow> capture_state \<Rightarrow> capture_state" where
  "step (Request request) st = on_request request st"
| "step (Response response) st = on_response response st"
| "step (SaveToFile filename) st = fst (saveToFile filename st)"
| "step GetApiCalls st = st"

text \<open>The state after a sequence of events, oldest first.\<close>

definition run :: "event list \<Rightarrow> capture_state \<Rightarrow> capture_state" where
  "run evs st = fold step evs st"

text \<open>What the calls of \<open>saveToFile\<close> and \<open>getApiCalls\<close> in a sequence of events return.\<close>

fun emitted :: "event list \<Rightarrow> capture_state \<Rightarrow> api_call list list" where
  "emitted [] st = []"
| "emitted (SaveToFile filename # evs) st =
     snd (saveToFile filename st) # emitted evs (step (SaveToFile filename) st)"
| "emitted (GetApiCalls # evs) st = getApiCalls st # emitted evs st"
| "emitted (ev # evs) st = emitted evs (step ev st)"

section \<open>DOM snapshot extractor\<close>

text \<open>
  The live tree as the browser presents it. An element carries what the extractor reads
  from it: \<open>tagName\<close>, \<open>id\<close>, \<open>classList\<close>, \<open>attributes\<close>, the computed style
  (\<open>window.getComputedStyle\<close>, by property name) and \<open>getBoundingClientRect()\<close>.
  \<open>childNodes\<close> holds every child node; \<open>children\<close> is its sublist of elements.
  Box coordinates are finite doubles, read here as rationals.
\<close>

record rect =
  rect_x :: rat
  rect_y :: rat
  rect_width :: rat
  rect_height :: rat

record element_props =
  tagName :: string
  el_id :: string
  classList :: "string list"
  el_attributes :: "(string \<times> string) list"
  computedStyle :: "string \<Rightarrow> string"
  boundingClientRect :: rect

datatype element = Element element_props "node list"
and node =
    ElementNode element
  | TextNode string
  | CDATASection string
  | CommentNode string
  | ProcessingInstruction string

fun props :: "element \<Rightarrow> element_props" where
  "props (Element p kids) = p"

fun childNodes :: "element \<Rightarrow> node list" where
  "childNodes (Element p kids) = kids"

fun nodeType :: "node \<Rightarrow> nat" where
  "nodeType (ElementNode e) = 1"
| "nodeType (TextNode t) = 3"
| "nodeType (CDATASection t) = 4"
| "nodeType (ProcessingInstruction t) = 7"
| "nodeType (CommentNode t) = 8"

text \<open>\<open>element.children\<close>: the element children, in document order.\<close>

fun elementChildren :: "node list \<Rightarrow> element list" where
  "elementChildren [] = []"
| "elementChildren (ElementNode e # ns) = e # elementChildren ns"
| "elementChildren (n # ns) = elementChildren ns"

text \<open>
  \<open>textContent\<close> of an element: the text content of its children, comments and
  processing instructions left out, concatenated in document order.
\<close>

fun elementText :: "element \<Rightarrow> string"
and nodesText :: "node list \<Rightarrow> string" where
  "elementText (Element p kids) = nodesText kids"
| "nodesText [] = []"
| "nodesText (ElementNode e # ns) = elementText e @ nodesText ns"
| "nodesText (TextNode t # ns) = t @ nodesText ns"
| "nodesText (CDATASection t # ns) = t @ nodesText ns"
| "nodesText (CommentNode t # ns) = nodesText ns"
| "nodesText (ProcessingInstruction t # ns) = nodesText ns"

text \<open>The snapshot node that \<open>extractElement\<close> returns.\<close>

datatype dom_node = DomNode
  (tag: string)
  (ident: "string option")
  (classes: "string list")
  (attributes: "(string \<times> string) list")
  (styles: "(string \<times> string) list")
  (textContent: "string option")
  (position: rect)
  (children: "dom_node list")

definition styleProperties :: "string list" where
  "styleProperties =
     [''display'', ''position'', ''width'', ''height'', ''margin'', ''padding'',
      ''backgroundColor'', ''color'', ''fontSize'', ''fontFamily'', ''fontWeight'',
      ''borderRadius'', ''border'', ''boxShadow'', ''flexDirection'', ''justifyContent'',
      ''alignItems'', ''gridTemplateColumns'']"

definition extractStyles :: "element_props \<Rightarrow> (string \<times> string) list" where
  "extractStyles p = map (\<lambda>k. (k, computedStyle p k)) styleProperties"

definition extractAttributes :: "element_props \<Rightarrow> (string \<times> string) list" where
  "extractAttributes p = fold (\<lambda>(name, v) attrs. AList.update name v attrs) (el_attributes p) []"

definition extractText :: "element \<Rightarrow> string option" where
  "extractText e =
     (case childNodes e of
        [n] \<Rightarrow> if nodeType n = 3 then Some (trim (elementText e)) else None
      | _ \<Rightarrow> None)"

text \<open>
  \<open>extractElement(element, depth)\<close>, with \<open>None\<close> for \<open>null\<close>; \<open>extractChildren\<close> is
  its loop over \<open>element.children\<close>, which passes over the nodes that are not elements.
  The test \<open>!element\<close> is made where the root is chosen, in \<open>analyzeDOMStructure\<close>
  below: a child of the loop is never \<open>null\<close>.
\<close>

fun extractElement :: "element \<Rightarrow> nat \<Rightarrow> dom_node option"
and extractChildren :: "node list \<Rightarrow> nat \<Rightarrow> dom_node list" where
  "extractElement (Element p kids) depth =
     (if depth > 15 then None
      else Some (DomNode
        (toLowerCase (tagName p))
        (if el_id p = [] then None else Some (el_id p))
        (classList p)
        (extractAttributes p)
        (extractStyles p)
        (extractText (Element p kids))
        (boundingClientRect p)
        (extractChildren kids depth)))"
| "extractChildren [] depth = []"
| "extractChildren (ElementNode child # rest) depth =
     (if tagName (props child) = ''SCRIPT'' \<or> tagName (props child) = ''STYLE'' then
        extractChildren rest depth
      else
        (let childRect = boundingClientRect (props child) in
         if rect_width childRect > 0 \<and> rect_height childRect > 0 then
           (case extractElement child (depth + 1) of
              Some childData \<Rightarrow> childData # extractChildren rest depth
            | None \<Rightarrow> extractChildren rest depth)
         else extractChildren rest depth))"
| "extractChildren (TextNode t # rest) depth = extractChildren rest depth"
| "extractChildren (CDATASection t # rest) depth = extractChildren rest depth"
| "extractChildren (CommentNode t # rest) depth = extractChildren rest depth"
| "extractChildren (ProcessingInstruction t # rest) depth = extractChildren rest depth"

text \<open>
  The document: \<open>querySelector\<close> returns the first element in document order that
  matches, and \<open>document.body\<close> may be \<open>null\<close>.
\<close>

record document =
  doc_title :: string
  doc_href :: string
  innerWidth :: rat
  innerHeight :: rat
  documentElement :: "element option"
  doc_body :: "element option"

fun descendantsOrSelf :: "element \<Rightarrow> element list"
and descendantsOfNodes :: "node list \<Rightarrow> element list" where
  "descendantsOrSelf (Element p kids) = Element p kids # descendantsOfNodes kids"
| "descendantsOfNodes [] = []"
| "descendantsOfNodes (ElementNode e # ns) = descendantsOrSelf e @ descendantsOfNodes ns"
| "descendantsOfNodes (TextNode t # ns) = descendantsOfNodes ns"
| "descendantsOfNodes (CDATASection t # ns) = descendantsOfNodes ns"
| "descendantsOfNodes (CommentNode t # ns) = descendantsOfNodes ns"
| "descendantsOfNodes (ProcessingInstruction t # ns) = descendantsOfNodes ns"

definition querySelector :: "(element_props \<Rightarrow> bool) \<Rightarrow> document \<Rightarrow> element option" where
  "querySelector matches doc =
     (case documentElement doc of
        None \<Rightarrow> None
      | Some html \<Rightarrow> find (\<lambda>e. matches (props e)) (descendantsOrSelf html))"

definition roleMain :: "element_props \<Rightarrow> bool" where
  "roleMain p = (map_of (el_attributes p) ''role'' = Some ''main'')"

definition idRoot :: "element_props \<Rightarrow> bool" where
  "idRoot p = (el_id p = ''root'')"

definition classApp :: "element_props \<Rightarrow> bool" where
  "classApp p = (''app'' \<in> set (classList p))"

definition appRoot :: "document \<Rightarrow> element option" where
  "appRoot doc =
     (case querySelector roleMain doc of
        Some e \<Rightarrow> Some e
      | None \<Rightarrow>
          (case querySelector idRoot doc of
             Some e \<Rightarrow> Some e
           | None \<Rightarrow>
               (case querySelector classApp doc of
                  Some e \<Rightarrow> Some e
                | None \<Rightarrow> doc_body doc)))"

record dom_data =
  dd_title :: string
  dd_url :: string
  dd_viewport :: "rat \<times> rat"
  dd_structure :: "dom_node option"

definition analyzeDOMStructure :: "document \<Rightarrow> dom_data" where
  "analyzeDOMStructure doc =
     \<lparr>dd_title = doc_title doc,
      dd_url = doc_href doc,
      dd_viewport = (innerWidth doc, innerHeight doc),
      dd_structure = (case appRoot doc of None \<Rightarrow> None | Some e \<Rightarrow> extractElement e 0)\<rparr>"

text \<open>
  The child inclusion rule in the words of the specification: a child is walked and
  included only if it is not a script or style element, its own rendered box has
  strictly positive width and height, and it does not lie past depth 15 (\<open>depth\<close> is
  the depth of its parent). \<open>keptElements\<close> lists, in document order and with their
  depths, the elements reached from the root through included children only: a child
  that is not included takes its whole subtree with it.
\<close>

definition includedChild :: "nat \<Rightarrow> element \<Rightarrow> bool" where
  "includedChild depth child =
     (depth < 15
      \<and> tagName (props child) \<noteq> ''SCRIPT'' \<and> tagName (props child) \<noteq> ''STYLE''
      \<and> 0 < rect_width (boundingClientRect (props child))
      \<and> 0 < rect_height (boundingClientRect (props child)))"

fun keptElements :: "element \<Rightarrow> nat \<Rightarrow> (element \<times> nat) list"
and keptOfNodes :: "node list \<Rightarrow> nat \<Rightarrow> (element \<times> nat) list" where
  "keptElements (Element p kids) depth = (Element p kids, depth) # keptOfNodes kids depth"
| "keptOfNodes [] depth = []"
| "keptOfNodes (ElementNode child # rest) depth =
     (if includedChild depth child then keptElements child (Suc depth) else [])
     @ keptOfNodes rest depth"
| "keptOfNodes (TextNode t # rest) depth = keptOfNodes rest depth"
| "keptOfNodes (CDATASection t # rest) depth = keptOfNodes rest depth"
| "keptOfNodes (CommentNode t # rest) depth = keptOfNodes rest depth"
| "keptOfNodes (ProcessingInstruction t # rest) depth = keptOfNodes rest depth"



text \<open>
  Example inputs: an element with a tag name and a box of the given width and height,
  no attributes and an empty computed style, and a chain of such elements nested
  \<open>k\<close> levels deep.
\<close>

definition plain :: "string \<Rightarrow> rat \<Rightarrow> rat \<Rightarrow> element_props" where
  "plain name w h =
     \<lparr>tagName = name, el_id = [], classList = [], el_attributes = [],
      computedStyle = (\<lambda>k. []),
      boundingClientRect = \<lparr>rect_x = 0, rect_y = 0, rect_width = w, rect_height = h\<rparr>\<rparr>"

fun chainOf :: "nat \<Rightarrow> element" where
  "chainOf 0 = Element (plain ''DIV'' 10 10) []"
| "chainOf (Suc k) = Element (plain ''DIV'' 10 10) [ElementNode (chainOf k)]"

definition bodyOnly :: "element \<Rightarrow> document" where
  "bodyOnly e =
     \<lparr>doc_title = ''Home'', doc_href = ''https://app.asana.com/0/home'',
      innerWidth = 1920, innerHeight = 1080,
      documentElement = Some (Element (plain ''HTML'' 1920 1080) [ElementNode e]),
      doc_body = Some e\<rparr>"

text \<open>Measures of a snapshot used to state its invariants.\<close>

fun nodeDepth :: "dom_node \<Rightarrow> nat" where
  "nodeDepth (DomNode t i c a s tx pos kids) = fold max (map (\<lambda>k. Suc (nodeDepth k)) kids) 0"

fun subnodes :: "dom_node \<Rightarrow> dom_node list" where
  "subnodes (DomNode t i c a s tx pos kids) =
     DomNode t i c a s tx pos kids # concat (map subnodes kids)"

text \<open>
  The invariant of the correlator: whatever is pending or finalized was classified
  in-scope when its request was observed.
\<close>

definition in_scope_state :: "capture_state \<Rightarrow> bool" where
  "in_scope_state st =
     ((\<forall>d \<in> ran (requestMap st). isApiCall (rd_url d))
      \<and> (\<forall>c \<in> set (apiCalls st). isApiCall (rd_url (ac_request c))))"

text \<open>The events that carry a given request object.\<close>

fun isRequestOf :: "nat \<Rightarrow> event \<Rightarrow> bool" where
  "isRequestOf r (Request request) = (req_identity request = r)"
| "isRequestOf r ev = False"

fun isResponseTo :: "nat \<Rightarrow> event \<Rightarrow> bool" where
  "isResponseTo r (Response response) = (resp_request response = r)"
| "isResponseTo r ev = False"

section \<open>Comparison engine: equality of CSS values\<close>

text \<open>
  A value is \<open>None\<close> for \<open>null\<close> or \<open>undefined\<close>. \<open>!val\<close> holds for these and for
  the empty string.
\<close>

definition normalize :: "string option \<Rightarrow> string" where
  "normalize val =
     (case val of
        None \<Rightarrow> ''''
      | Some s \<Rightarrow> if s = '''' then '''' else trim (collapseSpaces (toLowerCase s)))"

definition cssValuesMatch :: "string option \<Rightarrow> string option \<Rightarrow> bool" where
  "cssValuesMatch value1 value2 = (normalize value1 = normalize value2)"

text \<open>
  The words of a string, that is its maximal runs of characters that are not white
  space, and a list of words joined by single spaces: the terms in which the effect of
  \<open>normalize\<close> is stated.
\<close>

function splitWords :: "string \<Rightarrow> string list" where
  "splitWords s =
     (case dropWhile isSpace s of
        [] \<Rightarrow> []
      | c # cs \<Rightarrow>
          takeWhile (\<lambda>x. \<not> isSpace x) (c # cs)
          # splitWords (dropWhile (\<lambda>x. \<not> isSpace x) (c # cs)))"
  by pat_completeness auto
termination
proof (relation "measure length")
  fix s c cs
  assume d: "dropWhile isSpace s = c # cs"
  then have "\<not> isSpace c" by (simp add: dropWhile_eq_Cons_conv)
  then have "length (dropWhile (\<lambda>x. \<not> isSpace x) (c # cs)) \<le> length cs"
    by (simp add: length_dropWhile_le)
  moreover have "length (c # cs) \<le> length s"
    using length_dropWhile_le [of isSpace s] d by simp
  ultimately show "(dropWhile (\<lambda>x. \<not> isSpace x) (c # cs), s) \<in> measure length"
    by simp
qed simp

fun joinWords :: "string list \<Rightarrow> string" where
  "joinWords [] = []"
| "joinWords [w] = w"
| "joinWords (w # v # ws) = w @ CHR '' '' # joinWords (v # ws)"

section \<open>Comparison engine: comparing two pages\<close>

text \<open>
  A page answers \<open>page.$$(selector)\<close> with a list of element handles, or throws
  (\<open>None\<close>); a handle answers \<open>evaluate\<close> with the computed style of its element, by
  property name, or throws (\<open>None\<close>). Either exception is caught by the \<open>try\<close> inside
  the loop, which then goes on to the next selector.
\<close>

type_synonym computed_style = "string \<Rightarrow> string"
type_synonym element_handle = "computed_style option"
type_synonym page = "string \<Rightarrow> element_handle list option"

record css_match =
  m_selector :: string
  m_property :: string
  m_value :: string

record css_mismatch =
  mm_selector :: string
  mm_property :: string
  mm_original :: string
  mm_generated :: string

record css_comparison =
  matches :: "css_match list"
  mismatches :: "css_mismatch list"

definition selectors :: "string list" where
  "selectors =
     [''button'', ''input'', ''a'', ''h1'', ''h2'', ''h3'', ''.card'', ''.header'',
      ''.sidebar'', ''nav'']"

text \<open>The keys of the object that both \<open>evaluate\<close> callbacks return, in its order.\<close>

definition styleKeys :: "string list" where
  "styleKeys =
     [''color'', ''backgroundColor'', ''fontSize'', ''fontWeight'', ''padding'', ''margin'',
      ''borderRadius'', ''display'']"

definition compareProperty ::
  "string \<Rightarrow> computed_style \<Rightarrow> computed_style \<Rightarrow> string \<Rightarrow> css_comparison \<Rightarrow> css_comparison"
where
  "compareProperty selector originalStyles generatedStyles property acc =
     (let originalValue = originalStyles property;
          generatedValue = generatedStyles property
      in if cssValuesMatch (Some originalValue) (Some generatedValue) then
           acc\<lparr>matches := matches acc @
                 [\<lparr>m_selector = selector, m_property = property, m_value = originalValue\<rparr>]\<rparr>
         else
           acc\<lparr>mismatches := mismatches acc @
                 [\<lparr>mm_selector = selector, mm_property = property,
                   mm_original = originalValue, mm_generated = generatedValue\<rparr>]\<rparr>)"

definition compareSelector :: "page \<Rightarrow> page \<Rightarrow> string \<Rightarrow> css_comparison \<Rightarrow> css_comparison" where
  "compareSelector originalPage generatedPage selector acc =
     (case originalPage selector of
        None \<Rightarrow> acc
      | Some originalElements \<Rightarrow>
          (case generatedPage selector of
             None \<Rightarrow> acc
           | Some generatedElements \<Rightarrow>
               (case (originalElements, generatedElements) of
                  (originalFirst # _, generatedFirst # _) \<Rightarrow>
                    (case originalFirst of
                       None \<Rightarrow> acc
                     | Some originalStyles \<Rightarrow>
                         (case generatedFirst of
                            None \<Rightarrow> acc
                          | Some generatedStyles \<Rightarrow>
                              fold (compareProperty selector originalStyles generatedStyles)
                                styleKeys acc))
                | _ \<Rightarrow> acc)))"

definition compareCSSProperties :: "page \<Rightarrow> page \<Rightarrow> css_comparison" where
  "compareCSSProperties originalPage generatedPage =
     fold (compareSelector originalPage generatedPage) selectors \<lparr>matches = [], mismatches = []\<rparr>"

text \<open>
  JavaScript numbers as far as \<open>comparePages\<close> needs them: the quotient of two list
  lengths times 100, which is \<open>NaN\<close> for \<open>0 / 0\<close>. The finite values are read as exact
  rationals, without the rounding of the double division and multiplication; a
  comparison has at most 80 entries (ten selectors, eight properties).
  \<open>toFixed2\<close> is \<open>toFixed(2)\<close> for values below \<open>10^21\<close>: the nearest number with
  two decimals, the larger one in a tie.
\<close>

datatype number = NaN | Num rat

definition percentageOf :: "nat \<Rightarrow> nat \<Rightarrow> number" where
  "percentageOf m k = (if m + k = 0 then NaN else Num (of_nat m / of_nat (m + k) * 100))"

fun atLeast80 :: "number \<Rightarrow> bool" where
  "atLeast80 NaN = False"
| "atLeast80 (Num q) = (q \<ge> 80)"

definition digitChar :: "nat \<Rightarrow> char" where
  "digitChar d = ''0123456789'' ! d"

function showNat :: "nat \<Rightarrow> string" where
  "showNat n = (if n < 10 then [digitChar n] else showNat (n div 10) @ [digitChar (n mod 10)])"
  by pat_completeness auto
termination
  by (relation "measure id") auto

fun toFixed2 :: "number \<Rightarrow> string" where
  "toFixed2 NaN = ''NaN''"
| "toFixed2 (Num q) =
     (let n = nat \<lfloor>\<bar>q\<bar> * 100 + 1 / 2\<rfloor>
      in (if q < 0 then ''-'' else '''') @ showNat (n div 100) @ ''.'' @
         [digitChar (n mod 100 div 10), digitChar (n mod 10)])"

text \<open>
  \<open>comparePages\<close>: each page is what navigation and the screenshots leave, either the
  loaded page or the message of the exception thrown on the way (\<open>Inl\<close>), the original
  page first.
\<close>

record page_result =
  pr_page :: string
  pr_passed :: bool
  pr_differences :: "string list"
  pr_cssMatches :: "css_match list"
  pr_cssMismatches :: "css_mismatch list"
  pr_matchPercentage :: "string option"
  pr_error :: "string option"

definition comparePages :: "string + page \<Rightarrow> string + page \<Rightarrow> string \<Rightarrow> page_result" where
  "comparePages original generated pageName =
     (let result = \<lparr>pr_page = pageName, pr_passed = False, pr_differences = [],
                    pr_cssMatches = [], pr_cssMismatches = [],
                    pr_matchPercentage = None, pr_error = None\<rparr>
      in case original of
           Inl message \<Rightarrow> result\<lparr>pr_error := Some message\<rparr>
         | Inr originalPage \<Rightarrow>
             (case generated of
                Inl message \<Rightarrow> result\<lparr>pr_error := Some message\<rparr>
              | Inr generatedPage \<Rightarrow>
                  (let cssComparison = compareCSSProperties originalPage generatedPage;
                       matchPercentage =
                         percentageOf (length (matches cssComparison))
                           (length (mismatches cssComparison))
                   in result\<lparr>pr_cssMatches := matches cssComparison,
                             pr_cssMismatches := mismatches cssComparison,
                             pr_passed := atLeast80 matchPercentage,
                             pr_matchPercentage := Some (toFixed2 matchPercentage)\<rparr>)))"





section \<open>Properties of the string operations\<close>

lemma startsWith_iff: "startsWith s p \<longleftrightarrow> (\<exists>post. s = p @ post)"
  by (induction s p rule: startsWith.induct) auto

lemma includesStr_iff: "includesStr s p \<longleftrightarrow> (\<exists>pre post. s = pre @ p @ post)"
proof (induction s)
  case Nil
  then show ?case by auto
next
  case (Cons c cs)
  show ?case
  proof
    assume "includesStr (c # cs) p"
    then consider "startsWith (c # cs) p" | "includesStr cs p" by auto
    then show "\<exists>pre post. c # cs = pre @ p @ post"
    proof cases
      case 1
      then obtain post where "c # cs = p @ post" by (auto simp: startsWith_iff)
      then have "c # cs = [] @ p @ post" by simp
      then show ?thesis by blast
    next
      case 2
      then obtain pre post where "cs = pre @ p @ post" using Cons.IH by auto
      then have "c # cs = (c # pre) @ p @ post" by simp
      then show ?thesis by blast
    qed
  next
    assume "\<exists>pre post. c # cs = pre @ p @ post"
    then obtain pre post where eq: "c # cs = pre @ p @ post" by blast
    show "includesStr (c # cs) p"
    proof (cases pre)
      case Nil
      with eq have "startsWith (c # cs) p" by (auto simp: startsWith_iff)
      then show ?thesis by simp
    next
      case (Cons a pre')
      with eq have "cs = pre' @ p @ post" by simp
      then have "includesStr cs p" using Cons.IH by blast
      then show ?thesis by simp
    qed
  qed
qed

lemma isSpace_lowerChar [simp]: "isSpace (lowerChar c) = isSpace c"
  by (simp add: lowerChar_def isSpace_def split: option.splits)

lemma dropWhile_spaces_append:
  "\<forall>c \<in> set ws. isSpace c \<Longrightarrow> dropWhile isSpace (ws @ b) = dropWhile isSpace b"
  by (induction ws) auto

lemma collapseSpaces_run:
  assumes "ws1 \<noteq> []" "ws2 \<noteq> []" "\<forall>c \<in> set ws1. isSpace c" "\<forall>c \<in> set ws2. isSpace c"
  shows "collapseSpaces (a @ ws1 @ b) = collapseSpaces (a @ ws2 @ b)"
proof (induction a rule: collapseSpaces.induct)
  case 1
  obtain w1 r1 where w1: "ws1 = w1 # r1" using assms(1) by (cases ws1) auto
  obtain w2 r2 where w2: "ws2 = w2 # r2" using assms(2) by (cases ws2) auto
  show ?case using assms(3,4) by (simp add: w1 w2 dropWhile_spaces_append)
next
  case (2 c cs)
  show ?case
  proof (cases "isSpace c")
    case False
    then show ?thesis using 2 by simp
  next
    case True
    show ?thesis
    proof (cases "\<forall>x \<in> set cs. isSpace x")
      case True
      then have "dropWhile isSpace (cs @ ws1 @ b) = dropWhile isSpace b"
        "dropWhile isSpace (cs @ ws2 @ b) = dropWhile isSpace b"
        using assms(3,4) by (simp_all add: dropWhile_spaces_append)
      then show ?thesis using \<open>isSpace c\<close> by simp
    next
      case False
      then have "dropWhile isSpace (cs @ ws1 @ b) = dropWhile isSpace cs @ ws1 @ b"
        "dropWhile isSpace (cs @ ws2 @ b) = dropWhile isSpace cs @ ws2 @ b"
        by auto
      then show ?thesis using \<open>isSpace c\<close> 2(1) by simp
    qed
  qed
qed

lemma cssValuesMatch_run:
  assumes "ws1 \<noteq> []" "ws2 \<noteq> []" "\<forall>c \<in> set ws1. isSpace c" "\<forall>c \<in> set ws2. isSpace c"
  shows "cssValuesMatch (Some (a @ ws1 @ b)) (Some (a @ ws2 @ b))"
proof -
  have "collapseSpaces (toLowerCase a @ toLowerCase ws1 @ toLowerCase b)
      = collapseSpaces (toLowerCase a @ toLowerCase ws2 @ toLowerCase b)"
    using assms by (intro collapseSpaces_run) (auto simp: toLowerCase_def)
  then show ?thesis using assms(1,2)
    by (simp add: cssValuesMatch_def normalize_def toLowerCase_def)
qed

lemma cssValuesMatch_case:
  "toLowerCase s = toLowerCase t \<Longrightarrow> cssValuesMatch (Some s) (Some t)"
proof -
  assume eq: "toLowerCase s = toLowerCase t"
  then have "s = [] \<longleftrightarrow> t = []" by (auto simp: toLowerCase_def)
  with eq show ?thesis by (auto simp: cssValuesMatch_def normalize_def)
qed

lemma dropWhile_spaces: "\<forall>c \<in> set xs. isSpace c \<Longrightarrow> dropWhile isSpace xs = []"
  by (induction xs) auto

lemma isSpace_space [simp]: "isSpace (CHR '' '')"
  by (simp add: isSpace_def)

lemma normalize_Some: "normalize (Some s) = trim (collapseSpaces (toLowerCase s))"
  by (simp add: normalize_def trim_def toLowerCase_def)

lemma trim_leading: "\<forall>c \<in> set ws. isSpace c \<Longrightarrow> trim (ws @ y) = trim y"
  by (simp add: trim_def dropWhile_spaces_append)

lemma trim_trailing:
  assumes "\<forall>c \<in> set ws. isSpace c"
  shows "trim (y @ ws) = trim y"
proof (cases "\<forall>c \<in> set y. isSpace c")
  case True
  then have "dropWhile isSpace (y @ ws) = []" "dropWhile isSpace y = []"
    using assms by (auto intro!: dropWhile_spaces)
  then show ?thesis by (simp only: trim_def)
next
  case False
  then have "dropWhile isSpace (y @ ws) = dropWhile isSpace y @ ws" by auto
  moreover have "dropWhile isSpace (rev ws @ rev (dropWhile isSpace y))
      = dropWhile isSpace (rev (dropWhile isSpace y))"
    using assms by (intro dropWhile_spaces_append) simp
  ultimately show ?thesis by (simp add: trim_def)
qed

lemma collapseSpaces_leading:
  assumes "\<forall>c \<in> set ws. isSpace c"
  shows "trim (collapseSpaces (ws @ x)) = trim (collapseSpaces x)"
proof (cases ws)
  case Nil
  then show ?thesis by simp
next
  case (Cons w r)
  then have "collapseSpaces (ws @ x) = CHR '' '' # collapseSpaces (dropWhile isSpace x)"
    using assms by (simp add: dropWhile_spaces_append)
  then have "trim (collapseSpaces (ws @ x)) = trim (collapseSpaces (dropWhile isSpace x))"
    using trim_leading [of "'' ''" "collapseSpaces (dropWhile isSpace x)"]
    by (simp add: isSpace_def)
  also have "\<dots> = trim (collapseSpaces x)"
  proof (cases x)
    case Nil
    then show ?thesis by simp
  next
    case (Cons c cs)
    show ?thesis
    proof (cases "isSpace c")
      case True
      then show ?thesis
        using Cons trim_leading [of "'' ''" "collapseSpaces (dropWhile isSpace cs)"]
        by (simp add: isSpace_def)
    next
      case False
      then show ?thesis using Cons by simp
    qed
  qed
  finally show ?thesis .
qed

lemma collapseSpaces_trailing:
  assumes "\<forall>c \<in> set ws. isSpace c"
  shows "\<exists>tl. (\<forall>c \<in> set tl. isSpace c) \<and> collapseSpaces (x @ ws) = collapseSpaces x @ tl"
proof (induction x rule: collapseSpaces.induct)
  case 1
  show ?case
  proof (cases ws)
    case Nil
    then show ?thesis by simp
  next
    case (Cons w r)
    then have "collapseSpaces ([] @ ws) = collapseSpaces [] @ '' ''"
      using assms by (simp add: dropWhile_spaces)
    then show ?thesis by (metis isSpace_def list.set_intros(1) empty_iff empty_set set_ConsD
          insert_iff list.simps(15))
  qed
next
  case (2 c cs)
  show ?case
  proof (cases "isSpace c")
    case False
    then obtain tl where "\<forall>c \<in> set tl. isSpace c"
      "collapseSpaces (cs @ ws) = collapseSpaces cs @ tl"
      using 2(2) by blast
    then show ?thesis using False by auto
  next
    case True
    show ?thesis
    proof (cases "\<forall>x \<in> set cs. isSpace x")
      case allsp: True
      then have dw: "dropWhile isSpace (cs @ ws) = []" "dropWhile isSpace cs = []"
        using assms by (auto intro!: dropWhile_spaces)
      have "collapseSpaces ((c # cs) @ ws) = collapseSpaces (c # cs) @ []"
        using True by (simp only: append_Cons collapseSpaces.simps dw if_True append_Nil2)
      then show ?thesis by (metis empty_iff empty_set)
    next
      case False
      then have dw: "dropWhile isSpace (cs @ ws) = dropWhile isSpace cs @ ws" by auto
      obtain tl where "\<forall>c \<in> set tl. isSpace c"
        "collapseSpaces (dropWhile isSpace cs @ ws) = collapseSpaces (dropWhile isSpace cs) @ tl"
        using 2(1) [OF True] by blast
      then show ?thesis using True dw by auto
    qed
  qed
qed

lemma normalize_trimmed:
  assumes "\<forall>c \<in> set ws. isSpace c" "\<forall>c \<in> set ws'. isSpace c"
  shows "normalize (Some (ws @ s @ ws')) = normalize (Some s)"
proof -
  have l: "\<forall>c \<in> set (toLowerCase ws). isSpace c" "\<forall>c \<in> set (toLowerCase ws'). isSpace c"
    using assms by (simp_all add: toLowerCase_def)
  obtain tl where tl: "\<forall>c \<in> set tl. isSpace c"
    "collapseSpaces (toLowerCase s @ toLowerCase ws')
       = collapseSpaces (toLowerCase s) @ tl"
    using collapseSpaces_trailing [OF l(2)] by blast
  have "normalize (Some (ws @ s @ ws'))
      = trim (collapseSpaces (toLowerCase ws @ toLowerCase s @ toLowerCase ws'))"
    by (simp add: normalize_Some toLowerCase_def)
  also have "\<dots> = trim (collapseSpaces (toLowerCase s @ toLowerCase ws'))"
    by (rule collapseSpaces_leading [OF l(1)])
  also have "\<dots> = trim (collapseSpaces (toLowerCase s))"
    using tl trim_trailing by simp
  finally show ?thesis by (simp add: normalize_Some)
qed

declare splitWords.simps [simp del]

lemma splitWords_Nil: "dropWhile isSpace s = [] \<Longrightarrow> splitWords s = []"
  by (subst splitWords.simps) (simp only: list.case)

lemma splitWords_Cons:
  "dropWhile isSpace s = c # cs \<Longrightarrow>
   splitWords s = takeWhile (\<lambda>x. \<not> isSpace x) (c # cs)
     # splitWords (dropWhile (\<lambda>x. \<not> isSpace x) (c # cs))"
  by (subst splitWords.simps) (simp only: list.case)

lemma splitWords_spaces: "\<forall>c \<in> set s. isSpace c \<Longrightarrow> splitWords s = []"
  by (rule splitWords_Nil) (rule dropWhile_spaces)

lemma splitWords_dropWhile: "splitWords (dropWhile isSpace s) = splitWords s"
  by (subst splitWords.simps, subst (2) splitWords.simps) simp

lemma splitWords_word:
  assumes "w \<noteq> []" "\<forall>c \<in> set w. \<not> isSpace c" "rest = [] \<or> isSpace (hd rest)"
  shows "splitWords (w @ rest) = w # splitWords rest"
proof -
  obtain c cs where w: "w = c # cs" using assms(1) by (cases w) auto
  have nc: "\<not> isSpace c" using assms(2) w by simp
  have tw: "takeWhile (\<lambda>x. \<not> isSpace x) (w @ rest) = w"
    using assms(2,3) by (cases rest) (auto simp: takeWhile_append2 takeWhile_eq_all_conv [THEN iffD2])
  have dw: "dropWhile (\<lambda>x. \<not> isSpace x) (w @ rest) = rest"
    using assms(2,3) by (cases rest) (auto simp: dropWhile_append2)
  have "dropWhile isSpace (w @ rest) = c # (cs @ rest)" using nc w by simp
  then have "splitWords (w @ rest) = takeWhile (\<lambda>x. \<not> isSpace x) (c # (cs @ rest))
      # splitWords (dropWhile (\<lambda>x. \<not> isSpace x) (c # (cs @ rest)))"
    by (rule splitWords_Cons)
  then show ?thesis using tw dw w by simp
qed

lemma splitWords_good:
  "\<forall>w \<in> set (splitWords s). w \<noteq> [] \<and> (\<forall>c \<in> set w. \<not> isSpace c)"
proof (induction s rule: splitWords.induct)
  case (1 s)
  show ?case
  proof (cases "dropWhile isSpace s")
    case Nil
    show ?thesis using splitWords_Nil [OF Nil] by simp
  next
    case (Cons c cs)
    define w where "w = takeWhile (\<lambda>x. \<not> isSpace x) (c # cs)"
    define rest where "rest = dropWhile (\<lambda>x. \<not> isSpace x) (c # cs)"
    have nc: "\<not> isSpace c" using Cons by (simp add: dropWhile_eq_Cons_conv)
    have word: "w \<noteq> [] \<and> (\<forall>x \<in> set w. \<not> isSpace x)"
      unfolding w_def using nc by (auto dest: set_takeWhileD)
    have sw: "splitWords s = w # splitWords rest"
      unfolding w_def rest_def by (rule splitWords_Cons [OF Cons])
    have ih: "\<forall>w \<in> set (splitWords rest). w \<noteq> [] \<and> (\<forall>c \<in> set w. \<not> isSpace c)"
      unfolding rest_def by (rule 1 [OF Cons])
    show ?thesis unfolding sw using word ih by simp
  qed
qed

lemma joinWords_ends:
  assumes "\<forall>w \<in> set ws. w \<noteq> [] \<and> (\<forall>c \<in> set w. \<not> isSpace c)" "ws \<noteq> []"
  shows "joinWords ws \<noteq> [] \<and> \<not> isSpace (hd (joinWords ws)) \<and> \<not> isSpace (last (joinWords ws))"
  using assms
proof (induction ws rule: joinWords.induct)
  case 1
  then show ?case by simp
next
  case (2 w)
  then show ?case by (cases w) auto
next
  case (3 w v ws)
  then have "joinWords (v # ws) \<noteq> [] \<and> \<not> isSpace (last (joinWords (v # ws)))" by simp
  moreover have "w \<noteq> [] \<and> \<not> isSpace (hd w)" using 3(2) by (cases w) auto
  ultimately show ?case by auto
qed

lemma trim_id:
  assumes "y \<noteq> []" "\<not> isSpace (hd y)" "\<not> isSpace (last y)"
  shows "trim y = y"
proof -
  have a: "dropWhile isSpace y = y" using assms(1,2) by (cases y) auto
  obtain r rs where r: "rev y = r # rs" using assms(1) by (cases "rev y") auto
  then have "r = last y" using assms(1) hd_rev [of y] by simp
  then have "dropWhile isSpace (r # rs) = r # rs" using assms(3) by simp
  then have b: "dropWhile isSpace (rev y) = rev y" by (simp only: r)
  show ?thesis by (simp only: trim_def a b rev_rev_ident)
qed

lemma collapseSpaces_word:
  "\<forall>c \<in> set w. \<not> isSpace c \<Longrightarrow> collapseSpaces (w @ rest) = w @ collapseSpaces rest"
  by (induction w) auto

lemma collapseSpaces_lead:
  "collapseSpaces s
     = (if s \<noteq> [] \<and> isSpace (hd s) then '' '' else []) @ collapseSpaces (dropWhile isSpace s)"
  by (cases s) auto

text \<open>
  A collapsed string is its words joined by single spaces, after one space if the string
  began with white space and before at most white space.
\<close>

lemma collapseSpaces_words:
  "\<exists>post. (\<forall>c \<in> set post. isSpace c)
     \<and> collapseSpaces s
         = (if s \<noteq> [] \<and> isSpace (hd s) then '' '' else []) @ joinWords (splitWords s) @ post"
proof (induction s rule: splitWords.induct)
  case (1 s)
  show ?case
  proof (cases "dropWhile isSpace s")
    case Nil
    have "splitWords s = []" by (rule splitWords_Nil [OF Nil])
    moreover have "collapseSpaces (dropWhile isSpace s) = []" by (simp only: Nil collapseSpaces.simps)
    ultimately show ?thesis using collapseSpaces_lead [of s]
      by (intro exI [of _ "[]"]) simp
  next
    case (Cons c cs)
    define w where "w = takeWhile (\<lambda>x. \<not> isSpace x) (c # cs)"
    define rest where "rest = dropWhile (\<lambda>x. \<not> isSpace x) (c # cs)"
    have nc: "\<not> isSpace c" using Cons by (simp add: dropWhile_eq_Cons_conv)
    have d: "dropWhile isSpace s = w @ rest" using Cons by (simp add: w_def rest_def)
    have w: "\<forall>x \<in> set w. \<not> isSpace x" unfolding w_def by (auto dest: set_takeWhileD)
    have rest: "rest = [] \<or> isSpace (hd rest)"
    proof (cases "rest = []")
      case False
      then have "\<not> \<not> isSpace (hd rest)"
        unfolding rest_def by (rule hd_dropWhile)
      then show ?thesis by simp
    qed simp
    have words: "splitWords s = w # splitWords rest"
      unfolding w_def rest_def by (rule splitWords_Cons [OF Cons])
    obtain post where post: "\<forall>x \<in> set post. isSpace x"
      "collapseSpaces rest
         = (if rest \<noteq> [] \<and> isSpace (hd rest) then '' '' else []) @ joinWords (splitWords rest) @ post"
      using 1 [OF Cons] unfolding rest_def by blast
    have whole: "collapseSpaces s
        = (if s \<noteq> [] \<and> isSpace (hd s) then '' '' else []) @ w @ collapseSpaces rest"
      using collapseSpaces_lead [of s] collapseSpaces_word [OF w, of rest] d by simp
    show ?thesis
    proof (cases "splitWords rest")
      case Nil
      have "\<forall>x \<in> set ((if rest \<noteq> [] \<and> isSpace (hd rest) then '' '' else []) @ post). isSpace x"
        using post(1) by auto
      moreover have "collapseSpaces s
          = (if s \<noteq> [] \<and> isSpace (hd s) then '' '' else []) @ joinWords (splitWords s)
            @ ((if rest \<noteq> [] \<and> isSpace (hd rest) then '' '' else []) @ post)"
        using whole post(2) words Nil by simp
      ultimately show ?thesis by blast
    next
      case (Cons v vs)
      then have "rest \<noteq> []" using splitWords_spaces [of rest] by auto
      then have "collapseSpaces rest = CHR '' '' # joinWords (splitWords rest) @ post"
        using post(2) rest by simp
      then have "collapseSpaces s
          = (if s \<noteq> [] \<and> isSpace (hd s) then '' '' else []) @ joinWords (splitWords s) @ post"
        using whole words Cons by simp
      then show ?thesis using post(1) by blast
    qed
  qed
qed

lemma trim_collapseSpaces: "trim (collapseSpaces s) = joinWords (splitWords s)"
proof -
  obtain post where post: "\<forall>c \<in> set post. isSpace c"
    "collapseSpaces s
       = (if s \<noteq> [] \<and> isSpace (hd s) then '' '' else []) @ joinWords (splitWords s) @ post"
    using collapseSpaces_words by blast
  have lead: "\<forall>c \<in> set (if s \<noteq> [] \<and> isSpace (hd s) then '' '' else []). isSpace c"
    by auto
  have "trim (collapseSpaces s) = trim (joinWords (splitWords s) @ post)"
    unfolding post(2) by (rule trim_leading [OF lead])
  also have "\<dots> = trim (joinWords (splitWords s))"
    by (rule trim_trailing [OF post(1)])
  also have "\<dots> = joinWords (splitWords s)"
  proof (cases "splitWords s")
    case Nil
    then show ?thesis by (simp add: trim_def)
  next
    case (Cons v vs)
    then show ?thesis
      using joinWords_ends [OF splitWords_good, of s] by (intro trim_id) auto
  qed
  finally show ?thesis .
qed

lemma splitWords_joinWords:
  "\<forall>w \<in> set ws. w \<noteq> [] \<and> (\<forall>c \<in> set w. \<not> isSpace c) \<Longrightarrow> splitWords (joinWords ws) = ws"
proof (induction ws rule: joinWords.induct)
  case 1
  show ?case by (simp add: splitWords_Nil)
next
  case (2 w)
  then show ?case using splitWords_word [of w "[]"] splitWords_spaces [of "[]"] by simp
next
  case (3 w v ws)
  have sp: "isSpace (CHR '' '')" by simp
  have "splitWords (CHR '' '' # joinWords (v # ws)) = splitWords (joinWords (v # ws))"
    using splitWords_dropWhile [of "CHR '' '' # joinWords (v # ws)"]
      splitWords_dropWhile [of "joinWords (v # ws)"] sp by simp
  then have "splitWords (CHR '' '' # joinWords (v # ws)) = v # ws" using 3 by simp
  then show ?case
    using splitWords_word [of w "CHR '' '' # joinWords (v # ws)"] 3(2) sp by simp
qed

lemma normalize_words: "normalize (Some s) = joinWords (splitWords (toLowerCase s))"
  by (simp add: normalize_Some trim_collapseSpaces)

lemma cssValuesMatch_words:
  "cssValuesMatch (Some s) (Some t)
     \<longleftrightarrow> splitWords (toLowerCase s) = splitWords (toLowerCase t)"
proof
  assume "cssValuesMatch (Some s) (Some t)"
  then have "joinWords (splitWords (toLowerCase s)) = joinWords (splitWords (toLowerCase t))"
    by (simp add: cssValuesMatch_def normalize_words)
  then have "splitWords (joinWords (splitWords (toLowerCase s)))
      = splitWords (joinWords (splitWords (toLowerCase t)))" by simp
  then show "splitWords (toLowerCase s) = splitWords (toLowerCase t)"
    by (simp add: splitWords_joinWords [OF splitWords_good])
next
  assume "splitWords (toLowerCase s) = splitWords (toLowerCase t)"
  then show "cssValuesMatch (Some s) (Some t)"
    by (simp add: cssValuesMatch_def normalize_words)
qed

section \<open>Comparison engine: \<open>cssValuesMatch\<close>\<close>

text \<open>
  The first example of claim C2 fails: a run of white space is collapsed to one space,
  never removed, so the spaces inside \<open>Rgb( 1 , 2 , 3 )\<close> survive normalization.
\<close>

theorem cssValuesMatch_counterexample:
  "cssValuesMatch (Some ''Rgb( 1 , 2 , 3 )'') (Some ''rgb(1,2,3)'') = False"
  by (simp add: cssValuesMatch_def normalize_def trim_def toLowerCase_def lowerChar_def isSpace_def)

text \<open>
  Claim C2, amended: \<open>cssValuesMatch\<close> is reflexive and symmetric, and two values match
  exactly when, lower-cased, they consist of the same words in the same order, \<open>null\<close>
  counting as the empty string. So it ignores case, the length of each run of white
  space and any leading or trailing white space, but not the white space between two
  words: \<open>match("Rgb(  1 ,  2 , 3 ) ", "rgb( 1 , 2 , 3 )")\<close> and \<open>match(null, "")\<close> are
  true, \<open>match("10px", "11px")\<close> is false.
\<close>

theorem cssValuesMatch_properties:
  "cssValuesMatch v v
   \<and> cssValuesMatch v w = cssValuesMatch w v
   \<and> (toLowerCase s = toLowerCase t \<longrightarrow> cssValuesMatch (Some s) (Some t))
   \<and> (ws1 \<noteq> [] \<and> ws2 \<noteq> [] \<and> (\<forall>c \<in> set (ws1 @ ws2). isSpace c)
        \<longrightarrow> cssValuesMatch (Some (a @ ws1 @ b)) (Some (a @ ws2 @ b)))
   \<and> cssValuesMatch (Some ''Rgb(  1 ,  2 , 3 ) '') (Some ''rgb( 1 , 2 , 3 )'')
   \<and> cssValuesMatch None (Some [])
   \<and> \<not> cssValuesMatch (Some ''10px'') (Some ''11px'')
   \<and> ((\<forall>c \<in> set (lead @ trail). isSpace c)
        \<longrightarrow> cssValuesMatch (Some (lead @ u @ trail)) (Some u))
   \<and> (cssValuesMatch (Some x) (Some y)
        \<longleftrightarrow> splitWords (toLowerCase x) = splitWords (toLowerCase y))
   \<and> cssValuesMatch None w = cssValuesMatch (Some []) w"
proof -
  have 1: "cssValuesMatch v v" by (simp add: cssValuesMatch_def)
  have 2: "cssValuesMatch v w = cssValuesMatch w v" by (auto simp: cssValuesMatch_def)
  have 3: "toLowerCase s = toLowerCase t \<longrightarrow> cssValuesMatch (Some s) (Some t)"
    using cssValuesMatch_case by blast
  have 4: "ws1 \<noteq> [] \<and> ws2 \<noteq> [] \<and> (\<forall>c \<in> set (ws1 @ ws2). isSpace c)
        \<longrightarrow> cssValuesMatch (Some (a @ ws1 @ b)) (Some (a @ ws2 @ b))"
    using cssValuesMatch_run [of ws1 ws2 a b] by auto
  have 5: "cssValuesMatch (Some ''Rgb(  1 ,  2 , 3 ) '') (Some ''rgb( 1 , 2 , 3 )'')"
    by (simp add: cssValuesMatch_def normalize_def trim_def toLowerCase_def lowerChar_def isSpace_def)
  have 6: "cssValuesMatch None (Some [])"
    by (simp add: cssValuesMatch_def normalize_def)
  have 7: "\<not> cssValuesMatch (Some ''10px'') (Some ''11px'')"
    by (simp add: cssValuesMatch_def normalize_def trim_def toLowerCase_def lowerChar_def isSpace_def)
  have 8: "(\<forall>c \<in> set (lead @ trail). isSpace c)
        \<longrightarrow> cssValuesMatch (Some (lead @ u @ trail)) (Some u)"
    using normalize_trimmed [of lead trail u] by (simp add: cssValuesMatch_def)
  have 9: "cssValuesMatch (Some x) (Some y)
        \<longleftrightarrow> splitWords (toLowerCase x) = splitWords (toLowerCase y)"
    by (rule cssValuesMatch_words)
  have 10: "cssValuesMatch None w = cssValuesMatch (Some []) w"
    by (simp add: cssValuesMatch_def normalize_def)
  from 1 2 3 4 5 6 7 8 9 10 show ?thesis by blast
qed

theorem cssValuesMatch_properties_witness:
  "toLowerCase ''RED'' = toLowerCase ''red''
   \<and> cssValuesMatch (Some ''RED'') (Some ''red'')
   \<and> cssValuesMatch (Some ''1px  2px'') (Some ''1px 2px'')
   \<and> cssValuesMatch (Some '' 10px  '') (Some ''10px'')
   \<and> splitWords (toLowerCase ''Rgb(  1 ,  2 , 3 ) '')
       = [''rgb('', ''1'', '','', ''2'', '','', ''3'', '')'']"
proof -
  have lower: "toLowerCase ''RED'' = toLowerCase ''red''"
    by (simp add: toLowerCase_def lowerChar_def)
  have sp: "''  '' \<noteq> [] \<and> '' '' \<noteq> [] \<and> (\<forall>c \<in> set (''  '' @ '' ''). isSpace c)"
    by (simp add: isSpace_def)
  have edge: "\<forall>c \<in> set ('' '' @ ''  ''). isSpace c"
    by (simp add: isSpace_def)
  have words: "splitWords (toLowerCase ''Rgb(  1 ,  2 , 3 ) '')
      = [''rgb('', ''1'', '','', ''2'', '','', ''3'', '')'']"
    by (simp add: splitWords.simps toLowerCase_def lowerChar_def isSpace_def)
  show ?thesis
    using lower sp edge words
      cssValuesMatch_properties [of "Some ''x''" "Some ''x''" "''RED''" "''red''" "''  ''" "'' ''"
        "''1px''" "''2px''" "'' ''" "''  ''" "''10px''" "''a''" "''a''"]
    by simp
qed

section \<open>Network correlator: classification\<close>

lemma isApiCall_iff:
  "isApiCall u \<longleftrightarrow>
     (\<exists>p \<in> set apiPatterns. includesStr (toLowerCase u) p)
     \<and> (\<forall>p \<in> set excludePatterns. \<not> includesStr (toLowerCase u) p)"
  by (simp add: isApiCall_def list_ex_iff Let_def)

lemma on_request_scope: "in_scope_state st \<Longrightarrow> in_scope_state (on_request q st)"
  by (auto simp: in_scope_state_def on_request_def ran_def)

lemma on_response_scope: "in_scope_state st \<Longrightarrow> in_scope_state (on_response p st)"
  by (auto simp: in_scope_state_def on_response_def build_apiCall_def Let_def ran_def
      split: option.splits sum.splits if_splits)

lemma step_scope: "in_scope_state st \<Longrightarrow> in_scope_state (step ev st)"
  by (cases ev) (auto simp: on_request_scope on_response_scope, auto simp: in_scope_state_def saveToFile_def)

lemma run_scope: "in_scope_state st \<Longrightarrow> in_scope_state (run evs st)"
  unfolding run_def by (induction evs arbitrary: st) (auto simp: step_scope)

lemma initial_scope: "in_scope_state initial_capture"
  by (simp add: in_scope_state_def initial_capture_def)

text \<open>
  Claim C6: a URL is in scope exactly when its lower-cased form contains a fragment of
  the allow-list and none of the deny-list. A URL whose lower-cased form contains both
  \<open>/api/\<close> and \<open>.png\<close> is out of scope, and after any sequence of events no finalized
  call has that URL.
\<close>

theorem isApiCall_deny_wins:
  "(isApiCall u \<longleftrightarrow>
      (\<exists>p \<in> set apiPatterns. includesStr (toLowerCase u) p)
      \<and> (\<forall>p \<in> set excludePatterns. \<not> includesStr (toLowerCase u) p))
   \<and> (includesStr (toLowerCase u) ''/api/'' \<and> includesStr (toLowerCase u) ''.png''
        \<longrightarrow> \<not> isApiCall u
            \<and> (\<forall>c \<in> set (apiCalls (run evs initial_capture)). rd_url (ac_request c) \<noteq> u))"
proof -
  have scope: "\<forall>c \<in> set (apiCalls (run evs initial_capture)). isApiCall (rd_url (ac_request c))"
    using run_scope [OF initial_scope, of evs] by (simp add: in_scope_state_def)
  have deny: "includesStr (toLowerCase u) ''.png'' \<Longrightarrow> \<not> isApiCall u"
    by (simp add: isApiCall_iff excludePatterns_def)
  show ?thesis using scope deny isApiCall_iff by blast
qed

theorem isApiCall_deny_wins_witness:
  "includesStr (toLowerCase ''https://app.asana.com/api/1.0/icons/logo.PNG'') ''/api/''
   \<and> includesStr (toLowerCase ''https://app.asana.com/api/1.0/icons/logo.PNG'') ''.png''
   \<and> \<not> isApiCall ''https://app.asana.com/api/1.0/icons/logo.PNG''
   \<and> apiCalls (run [Request \<lparr>req_identity = 1,
          req_url = ''https://app.asana.com/api/1.0/icons/logo.PNG'', req_method = ''GET'',
          req_headers = [], req_postData = None, req_generatedId = ''req_1_a'', req_now = 1\<rparr>,
        Response \<lparr>resp_request = 1,
          resp_url = ''https://app.asana.com/api/1.0/icons/logo.PNG'', resp_status = 200,
          resp_headers = [(''content-type'', ''image/png'')], resp_text = Some ''x'',
          resp_jsonParse = None\<rparr>] initial_capture) = []"
proof -
  have a: "includesStr (toLowerCase ''https://app.asana.com/api/1.0/icons/logo.PNG'') ''/api/''"
    by (simp add: toLowerCase_def lowerChar_def)
  have b: "includesStr (toLowerCase ''https://app.asana.com/api/1.0/icons/logo.PNG'') ''.png''"
    by (simp add: toLowerCase_def lowerChar_def)
  have c: "\<not> isApiCall ''https://app.asana.com/api/1.0/icons/logo.PNG''"
    using a b isApiCall_deny_wins [of "''https://app.asana.com/api/1.0/icons/logo.PNG''" "[]"]
    by blast
  show ?thesis using a b c
    by (simp add: run_def on_request_def on_response_def initial_capture_def)
qed

section \<open>Network correlator: failed reads and failed parses\<close>

text \<open>
  Claim C1 fails for a parse failure: the exception of \<open>JSON.parse\<close> leaves the
  \<open>try\<close> block before \<open>apiCalls.push\<close>, so the call is dropped while its pending
  entry is still evicted.
\<close>

theorem parse_failure_counterexample:
  "run [Request \<lparr>req_identity = 1, req_url = ''https://app.asana.com/api/1.0/tasks'',
          req_method = ''GET'', req_headers = [], req_postData = None,
          req_generatedId = ''req_1_a'', req_now = 1\<rparr>,
        Response \<lparr>resp_request = 1, resp_url = ''https://app.asana.com/api/1.0/tasks'',
          resp_status = 200, resp_headers = [(''content-type'', ''application/json'')],
          resp_text = Some ''<html>'', resp_jsonParse = None\<rparr>] initial_capture
   = \<lparr>apiCalls = [], requestMap = Map.empty, files = Map.empty, errorLog = 1\<rparr>"
proof -
  have scope: "isApiCall ''https://app.asana.com/api/1.0/tasks''"
    by (simp add: isApiCall_def toLowerCase_def lowerChar_def apiPatterns_def excludePatterns_def)
  show ?thesis
    by (simp add: run_def on_request_def on_response_def initial_capture_def scope
        build_apiCall_def contentTypeOf_def)
qed

text \<open>
  Claim C1, amended: for a response to a pending request, classified in-scope, a failed
  read of the body is recorded as one more finalized call with a null body; a failed
  parse of a body declared as JSON is logged and the call is not recorded; either way
  the failure is not fatal and the pending entry is evicted.
\<close>

theorem on_response_failures:
  assumes "requestMap st (resp_request response) = Some requestData"
    and "isApiCall (resp_url response)"
  shows "(resp_text response = None \<longrightarrow>
            (\<exists>apiCall. apiCalls (on_response response st) = apiCalls st @ [apiCall]
               \<and> ac_request apiCall = requestData
               \<and> rs_body (ac_response apiCall) = BodyNull
               \<and> rs_status (ac_response apiCall) = resp_status response)
            \<and> requestMap (on_response response st) (resp_request response) = None)
       \<and> (resp_text response = Some t \<and> t \<noteq> []
            \<and> includesStr (contentTypeOf response) ''application/json''
            \<and> resp_jsonParse response = None \<longrightarrow>
            apiCalls (on_response response st) = apiCalls st
            \<and> errorLog (on_response response st) = errorLog st + 1
            \<and> requestMap (on_response response st) (resp_request response) = None)"
  using assms by (auto simp: on_response_def build_apiCall_def Let_def)

theorem on_response_failures_witness:
  "apiCalls (run [Request \<lparr>req_identity = 1, req_url = ''https://app.asana.com/api/1.0/tasks'',
          req_method = ''GET'', req_headers = [], req_postData = None,
          req_generatedId = ''req_1_a'', req_now = 1\<rparr>,
        Response \<lparr>resp_request = 1, resp_url = ''https://app.asana.com/api/1.0/tasks'',
          resp_status = 200, resp_headers = [(''content-type'', ''application/json'')],
          resp_text = None, resp_jsonParse = None\<rparr>] initial_capture)
   = [\<lparr>ac_request = \<lparr>rd_id = ''req_1_a'', rd_url = ''https://app.asana.com/api/1.0/tasks'',
          rd_method = ''GET'', rd_headers = [], rd_postData = None, rd_timestamp = 1\<rparr>,
        ac_response = \<lparr>rs_status = 200, rs_headers = [(''content-type'', ''application/json'')],
          rs_body = BodyNull, rs_contentType = ''application/json''\<rparr>\<rparr>]
   \<and> apiCalls (run [Request \<lparr>req_identity = 1, req_url = ''https://app.asana.com/api/1.0/tasks'',
          req_method = ''GET'', req_headers = [], req_postData = None,
          req_generatedId = ''req_1_a'', req_now = 1\<rparr>,
        Response \<lparr>resp_request = 1, resp_url = ''https://app.asana.com/api/1.0/tasks'',
          resp_status = 200, resp_headers = [(''content-type'', ''application/json'')],
          resp_text = Some ''{'', resp_jsonParse = None\<rparr>] initial_capture) = []"
proof -
  define q where "q = \<lparr>req_identity = 1, req_url = ''https://app.asana.com/api/1.0/tasks'',
          req_method = ''GET'', req_headers = [], req_postData = None,
          req_generatedId = ''req_1_a'', req_now = 1\<rparr>"
  define p where "p = \<lparr>resp_request = 1, resp_url = ''https://app.asana.com/api/1.0/tasks'',
          resp_status = 200, resp_headers = [(''content-type'', ''application/json'')],
          resp_text = None, resp_jsonParse = None\<rparr>"
  define p' where "p' = \<lparr>resp_request = 1, resp_url = ''https://app.asana.com/api/1.0/tasks'',
          resp_status = 200, resp_headers = [(''content-type'', ''application/json'')],
          resp_text = Some ''{'', resp_jsonParse = None\<rparr>"
  define d where "d = \<lparr>rd_id = ''req_1_a'', rd_url = ''https://app.asana.com/api/1.0/tasks'',
          rd_method = ''GET'', rd_headers = [], rd_postData = None, rd_timestamp = 1\<rparr>"
  have scope: "isApiCall ''https://app.asana.com/api/1.0/tasks''"
    by (simp add: isApiCall_def toLowerCase_def lowerChar_def apiPatterns_def excludePatterns_def)
  have pending: "requestMap (on_request q initial_capture) (resp_request p) = Some d"
    by (simp add: on_request_def initial_capture_def q_def p_def d_def scope)
  have pending': "requestMap (on_request q initial_capture) (resp_request p') = Some d"
    by (simp add: on_request_def initial_capture_def q_def p'_def d_def scope)
  have inscope: "isApiCall (resp_url p)" "isApiCall (resp_url p')"
    by (simp_all add: p_def p'_def scope)
  have "resp_text p = None" by (simp add: p_def)
  with on_response_failures [OF pending inscope(1), of "[]"]
  obtain apiCall where
    "apiCalls (on_response p (on_request q initial_capture))
       = apiCalls (on_request q initial_capture) @ [apiCall]"
    "ac_request apiCall = d" "rs_body (ac_response apiCall) = BodyNull"
    by blast
  then have first: "apiCalls (run [Request q, Response p] initial_capture)
      = [\<lparr>ac_request = d,
          ac_response = \<lparr>rs_status = 200, rs_headers = [(''content-type'', ''application/json'')],
            rs_body = BodyNull, rs_contentType = ''application/json''\<rparr>\<rparr>]"
    unfolding q_def p_def d_def
    by (simp add: run_def on_request_def on_response_def initial_capture_def scope
        build_apiCall_def contentTypeOf_def Let_def)
  have "resp_text p' = Some ''{'' \<and> ''{'' \<noteq> []
      \<and> includesStr (contentTypeOf p') ''application/json'' \<and> resp_jsonParse p' = None"
    by (simp add: p'_def contentTypeOf_def)
  with on_response_failures [OF pending' inscope(2), of "''{''"]
  have "apiCalls (on_response p' (on_request q initial_capture))
      = apiCalls (on_request q initial_capture)"
    by blast
  then have second: "apiCalls (run [Request q, Response p'] initial_capture) = []"
    by (simp add: run_def on_request_def initial_capture_def q_def scope)
  from first second show ?thesis
    unfolding q_def p_def p'_def d_def by simp
qed

section \<open>Network correlator: requests without a response\<close>

text \<open>
  Two states that differ only in the pending entry of the request \<open>r\<close> stay so under
  every event that is not a response to \<open>r\<close>, and return the same lists.
\<close>

lemma step_apart:
  assumes "apiCalls st = apiCalls st'" "files st = files st'" "errorLog st = errorLog st'"
    and "\<forall>k. k \<noteq> r \<longrightarrow> requestMap st k = requestMap st' k"
    and "\<not> isResponseTo r ev" "\<not> isRequestOf r ev"
  shows "apiCalls (step ev st) = apiCalls (step ev st')
       \<and> files (step ev st) = files (step ev st')
       \<and> errorLog (step ev st) = errorLog (step ev st')
       \<and> (\<forall>k. k \<noteq> r \<longrightarrow> requestMap (step ev st) k = requestMap (step ev st') k)"
proof (cases ev)
  case (Request q)
  then show ?thesis using assms by (auto simp: on_request_def)
next
  case (Response p)
  then have "resp_request p \<noteq> r" using assms(5) by simp
  then have "requestMap st (resp_request p) = requestMap st' (resp_request p)"
    using assms(4) by blast
  then show ?thesis using Response assms(1-4)
    by (auto simp: on_response_def Let_def split: option.splits sum.splits)
next
  case (SaveToFile f)
  then show ?thesis using assms by (simp add: saveToFile_def)
next
  case GetApiCalls
  then show ?thesis using assms by simp
qed

lemma request_apart:
  assumes "isRequestOf r ev"
  shows "apiCalls (step ev st) = apiCalls st \<and> files (step ev st) = files st
       \<and> errorLog (step ev st) = errorLog st
       \<and> (\<forall>k. k \<noteq> r \<longrightarrow> requestMap (step ev st) k = requestMap st k)"
  using assms by (cases ev) (auto simp: on_request_def)

lemma run_apart:
  assumes "\<forall>ev \<in> set evs. \<not> isResponseTo r ev"
    and "apiCalls st = apiCalls st'" "files st = files st'" "errorLog st = errorLog st'"
    and "\<forall>k. k \<noteq> r \<longrightarrow> requestMap st k = requestMap st' k"
  shows "apiCalls (run evs st) = apiCalls (run (filter (\<lambda>ev. \<not> isRequestOf r ev) evs) st')
       \<and> files (run evs st) = files (run (filter (\<lambda>ev. \<not> isRequestOf r ev) evs) st')
       \<and> emitted evs st = emitted (filter (\<lambda>ev. \<not> isRequestOf r ev) evs) st'"
  using assms
proof (induction evs arbitrary: st st')
  case Nil
  then show ?case by (simp add: run_def)
next
  case (Cons ev evs)
  have noresp: "\<not> isResponseTo r ev" "\<forall>e \<in> set evs. \<not> isResponseTo r e"
    using Cons.prems(1) by auto
  show ?case
  proof (cases "isRequestOf r ev")
    case True
    then obtain q where ev: "ev = Request q" by (cases ev) auto
    have rel: "apiCalls (step ev st) = apiCalls st'" "files (step ev st) = files st'"
      "errorLog (step ev st) = errorLog st'"
      "\<forall>k. k \<noteq> r \<longrightarrow> requestMap (step ev st) k = requestMap st' k"
      using request_apart [OF True, of st] Cons.prems(2-5) by auto
    have "apiCalls (run evs (step ev st)) = apiCalls (run (filter (\<lambda>ev. \<not> isRequestOf r ev) evs) st')
       \<and> files (run evs (step ev st)) = files (run (filter (\<lambda>ev. \<not> isRequestOf r ev) evs) st')
       \<and> emitted evs (step ev st) = emitted (filter (\<lambda>ev. \<not> isRequestOf r ev) evs) st'"
      by (rule Cons.IH [OF noresp(2) rel])
    then show ?thesis using True ev by (simp add: run_def)
  next
    case False
    have rel: "apiCalls (step ev st) = apiCalls (step ev st')"
      "files (step ev st) = files (step ev st')"
      "errorLog (step ev st) = errorLog (step ev st')"
      "\<forall>k. k \<noteq> r \<longrightarrow> requestMap (step ev st) k = requestMap (step ev st') k"
      using step_apart [OF Cons.prems(2-5) noresp(1) False] by auto
    have ih: "apiCalls (run evs (step ev st))
          = apiCalls (run (filter (\<lambda>ev. \<not> isRequestOf r ev) evs) (step ev st'))
       \<and> files (run evs (step ev st))
          = files (run (filter (\<lambda>ev. \<not> isRequestOf r ev) evs) (step ev st'))
       \<and> emitted evs (step ev st)
          = emitted (filter (\<lambda>ev. \<not> isRequestOf r ev) evs) (step ev st')"
      by (rule Cons.IH [OF noresp(2) rel])
    show ?thesis
    proof (cases ev)
      case (Request q)
      then show ?thesis using ih False by (simp add: run_def)
    next
      case (Response p)
      then show ?thesis using ih False by (simp add: run_def)
    next
      case (SaveToFile f)
      then show ?thesis using ih False Cons.prems(2) by (simp add: run_def saveToFile_def)
    next
      case GetApiCalls
      then show ?thesis using ih False Cons.prems(2) by (simp add: run_def getApiCalls_def)
    qed
  qed
qed

lemma step_keeps_pending:
  assumes "requestMap st r \<noteq> None" "\<not> isResponseTo r ev"
  shows "requestMap (step ev st) r \<noteq> None"
  using assms
  by (cases ev) (auto simp: on_request_def on_response_def saveToFile_def Let_def
      split: option.splits sum.splits)

lemma run_keeps_pending:
  assumes "\<forall>ev \<in> set evs. \<not> isResponseTo r ev" "requestMap st r \<noteq> None"
  shows "requestMap (run evs st) r \<noteq> None"
  using assms
proof (induction evs arbitrary: st)
  case Nil
  then show ?case by (simp add: run_def)
next
  case (Cons ev evs)
  have "requestMap (step ev st) r \<noteq> None"
    using Cons.prems by (intro step_keeps_pending) auto
  then have "requestMap (run evs (step ev st)) r \<noteq> None"
    using Cons.prems(1) by (intro Cons.IH) auto
  then show ?case by (simp add: run_def)
qed

text \<open>
  Claim C7: when no response to the request \<open>r\<close> is observed, the finalized list, the
  saved files and everything that \<open>saveToFile\<close> and \<open>getApiCalls\<close> return, however
  often they are called, are what they would be had \<open>r\<close> never been requested; and if
  \<open>r\<close> was classified in-scope, it is still in the pending map at the end.
\<close>

theorem unanswered_request_never_finalized:
  assumes "\<forall>ev \<in> set evs. \<not> isResponseTo r ev"
  shows "apiCalls (run evs initial_capture)
           = apiCalls (run (filter (\<lambda>ev. \<not> isRequestOf r ev) evs) initial_capture)
       \<and> files (run evs initial_capture)
           = files (run (filter (\<lambda>ev. \<not> isRequestOf r ev) evs) initial_capture)
       \<and> emitted evs initial_capture
           = emitted (filter (\<lambda>ev. \<not> isRequestOf r ev) evs) initial_capture
       \<and> ((\<exists>request. Request request \<in> set evs \<and> req_identity request = r
              \<and> isApiCall (req_url request))
            \<longrightarrow> requestMap (run evs initial_capture) r \<noteq> None)"
proof -
  have "requestMap (run evs initial_capture) r \<noteq> None"
    if mem: "Request request \<in> set evs" and key: "req_identity request = r"
      and scope: "isApiCall (req_url request)"
    for request
  proof -
    obtain pre post where split: "evs = pre @ Request request # post"
      using split_list [OF mem] by blast
    have "requestMap (step (Request request) (run pre initial_capture)) r \<noteq> None"
      using key scope by (simp add: on_request_def)
    moreover have "\<forall>ev \<in> set post. \<not> isResponseTo r ev" using assms split by auto
    ultimately have "requestMap (run post (step (Request request) (run pre initial_capture))) r \<noteq> None"
      by (rule run_keeps_pending [rotated])
    then show ?thesis by (simp add: split run_def)
  qed
  then show ?thesis using run_apart [OF assms, of initial_capture initial_capture] by blast
qed

theorem unanswered_request_never_finalized_witness:
  "list_all (\<lambda>ev. \<not> isResponseTo 1 ev)
         [Request \<lparr>req_identity = 1, req_url = ''https://app.asana.com/api/1.0/tasks'',
            req_method = ''GET'', req_headers = [], req_postData = None,
            req_generatedId = ''req_1_a'', req_now = 1\<rparr>,
          Request \<lparr>req_identity = 2, req_url = ''https://app.asana.com/api/1.0/users'',
            req_method = ''GET'', req_headers = [], req_postData = None,
            req_generatedId = ''req_2_b'', req_now = 2\<rparr>,
          Response \<lparr>resp_request = 2, resp_url = ''https://app.asana.com/api/1.0/users'',
            resp_status = 200, resp_headers = [(''content-type'', ''text/plain'')],
            resp_text = Some ''ok'', resp_jsonParse = None\<rparr>,
          SaveToFile ''home-api-calls.json'', SaveToFile ''home-api-calls.json'']
   \<and> emitted [Request \<lparr>req_identity = 1, req_url = ''https://app.asana.com/api/1.0/tasks'',
            req_method = ''GET'', req_headers = [], req_postData = None,
            req_generatedId = ''req_1_a'', req_now = 1\<rparr>,
          Request \<lparr>req_identity = 2, req_url = ''https://app.asana.com/api/1.0/users'',
            req_method = ''GET'', req_headers = [], req_postData = None,
            req_generatedId = ''req_2_b'', req_now = 2\<rparr>,
          Response \<lparr>resp_request = 2, resp_url = ''https://app.asana.com/api/1.0/users'',
            resp_status = 200, resp_headers = [(''content-type'', ''text/plain'')],
            resp_text = Some ''ok'', resp_jsonParse = None\<rparr>,
          SaveToFile ''home-api-calls.json'', SaveToFile ''home-api-calls.json''] initial_capture
      = emitted [Request \<lparr>req_identity = 2, req_url = ''https://app.asana.com/api/1.0/users'',
            req_method = ''GET'', req_headers = [], req_postData = None,
            req_generatedId = ''req_2_b'', req_now = 2\<rparr>,
          Response \<lparr>resp_request = 2, resp_url = ''https://app.asana.com/api/1.0/users'',
            resp_status = 200, resp_headers = [(''content-type'', ''text/plain'')],
            resp_text = Some ''ok'', resp_jsonParse = None\<rparr>,
          SaveToFile ''home-api-calls.json'', SaveToFile ''home-api-calls.json''] initial_capture
   \<and> requestMap (run [Request \<lparr>req_identity = 1, req_url = ''https://app.asana.com/api/1.0/tasks'',
            req_method = ''GET'', req_headers = [], req_postData = None,
            req_generatedId = ''req_1_a'', req_now = 1\<rparr>,
          Request \<lparr>req_identity = 2, req_url = ''https://app.asana.com/api/1.0/users'',
            req_method = ''GET'', req_headers = [], req_postData = None,
            req_generatedId = ''req_2_b'', req_now = 2\<rparr>,
          Response \<lparr>resp_request = 2, resp_url = ''https://app.asana.com/api/1.0/users'',
            resp_status = 200, resp_headers = [(''content-type'', ''text/plain'')],
            resp_text = Some ''ok'', resp_jsonParse = None\<rparr>,
          SaveToFile ''home-api-calls.json'', SaveToFile ''home-api-calls.json''] initial_capture) 1
      \<noteq> None"
proof -
  define q1 where "q1 = \<lparr>req_identity = 1, req_url = ''https://app.asana.com/api/1.0/tasks'',
            req_method = ''GET'', req_headers = [], req_postData = None,
            req_generatedId = ''req_1_a'', req_now = 1\<rparr>"
  define q2 where "q2 = \<lparr>req_identity = 2, req_url = ''https://app.asana.com/api/1.0/users'',
            req_method = ''GET'', req_headers = [], req_postData = None,
            req_generatedId = ''req_2_b'', req_now = 2\<rparr>"
  define p2 where "p2 = \<lparr>resp_request = 2, resp_url = ''https://app.asana.com/api/1.0/users'',
            resp_status = 200, resp_headers = [(''content-type'', ''text/plain'')],
            resp_text = Some ''ok'', resp_jsonParse = None\<rparr>"
  define evs where "evs = [Request q1, Request q2, Response p2,
      SaveToFile ''home-api-calls.json'', SaveToFile ''home-api-calls.json'']"
  have hyp: "\<forall>ev \<in> set evs. \<not> isResponseTo 1 ev"
    by (simp add: evs_def p2_def)
  have hyp': "list_all (\<lambda>ev. \<not> isResponseTo 1 ev) evs"
    using hyp by (simp add: list_all_iff)
  have scope: "isApiCall (req_url q1)"
    by (simp add: q1_def isApiCall_def toLowerCase_def lowerChar_def apiPatterns_def
        excludePatterns_def)
  have mem: "Request q1 \<in> set evs \<and> req_identity q1 = 1" by (simp add: evs_def q1_def)
  have filtered: "filter (\<lambda>ev. \<not> isRequestOf 1 ev) evs
      = [Request q2, Response p2, SaveToFile ''home-api-calls.json'',
         SaveToFile ''home-api-calls.json'']"
    by (simp add: evs_def q1_def q2_def)
  from unanswered_request_never_finalized [OF hyp] scope mem
  have "emitted evs initial_capture
          = emitted (filter (\<lambda>ev. \<not> isRequestOf 1 ev) evs) initial_capture
      \<and> requestMap (run evs initial_capture) 1 \<noteq> None"
    by blast
  then show ?thesis using hyp' unfolding filtered unfolding evs_def q1_def q2_def p2_def
    by blast
qed

section \<open>DOM snapshot extractor\<close>

lemma fold_max_le: "fold max xs (a::nat) \<le> b \<longleftrightarrow> a \<le> b \<and> (\<forall>x \<in> set xs. x \<le> b)"
  by (induction xs arbitrary: a) auto

lemma nodeDepth_le:
  "nodeDepth n \<le> b \<longleftrightarrow> (\<forall>k \<in> set (children n). Suc (nodeDepth k) \<le> b)"
  by (cases n) (auto simp: fold_max_le)

lemma extract_depth:
  "(extractElement e d = Some n \<longrightarrow> d + nodeDepth n \<le> 15)"
  "(\<forall>k \<in> set (extractChildren kids d). d + Suc (nodeDepth k) \<le> 15)"
proof (induction e d and kids d arbitrary: n rule: extractElement_extractChildren.induct)
  case (1 p kids depth)
  show ?case
  proof
    assume ex: "extractElement (Element p kids) depth = Some n"
    then have d: "depth \<le> 15" and ch: "children n = extractChildren kids depth"
      by (auto split: if_splits)
    have "\<forall>k \<in> set (extractChildren kids depth). depth + Suc (nodeDepth k) \<le> 15"
      using 1 d by simp
    then have "nodeDepth n \<le> 15 - depth"
      unfolding nodeDepth_le ch using d by auto
    then show "depth + nodeDepth n \<le> 15" using d by simp
  qed
next
  case (3 child rest depth)
  then show ?case by (auto simp: Let_def split: option.splits)
qed auto

lemma extractElement_None: "extractElement e d = None \<longleftrightarrow> 15 < d"
  by (cases e) simp

lemma extractElement_Some:
  "d \<le> 15 \<Longrightarrow> \<exists>n. extractElement e d = Some n"
  by (cases e) simp

lemma extractElement_Some_le: "extractElement e d = Some n \<Longrightarrow> d \<le> 15"
  by (cases e) (auto split: if_splits)

lemma extractElement_fields:
  assumes "extractElement e d = Some n"
  shows "tag n = toLowerCase (tagName (props e))"
    and "position n = boundingClientRect (props e)"
    and "textContent n = extractText e"
    and "children n = extractChildren (childNodes e) d"
    and "d \<le> 15"
  using assms by (cases e; auto split: if_splits)+

lemma extractChildren_included:
  "list_all2 (\<lambda>c src. extractElement src (Suc d) = Some c)
     (extractChildren kids d) (filter (includedChild d) (elementChildren kids))"
proof (induction kids)
  case Nil
  then show ?case by simp
next
  case (Cons k kids)
  show ?case
  proof (cases k)
    case (ElementNode child)
    show ?thesis
    proof (cases "includedChild d child")
      case True
      then have "Suc d \<le> 15" by (simp add: includedChild_def)
      then obtain c where c: "extractElement child (Suc d) = Some c"
        using extractElement_Some by blast
      then show ?thesis using True Cons ElementNode
        by (simp add: includedChild_def)
    next
      case False
      then have "extractChildren (ElementNode child # kids) d = extractChildren kids d"
        by (auto simp: includedChild_def Let_def split: option.splits
            dest: extractElement_Some_le)
      then show ?thesis using False Cons ElementNode by simp
    qed
  qed (use Cons in auto)
qed

lemma snapshot_nodes:
  "extractElement e d = Some n \<longrightarrow>
     list_all2 (\<lambda>m (src, k). extractElement src k = Some m) (subnodes n) (keptElements e d)"
  "list_all2 (\<lambda>m (src, k). extractElement src k = Some m)
     (concat (map subnodes (extractChildren kids d))) (keptOfNodes kids d)"
proof (induction e d and kids d arbitrary: n rule: extractElement_extractChildren.induct)
  case (1 p kids depth)
  show ?case
  proof
    assume ex: "extractElement (Element p kids) depth = Some n"
    then have d: "\<not> 15 < depth" by (auto split: if_splits)
    obtain t i c a s tx pos ch where n: "n = DomNode t i c a s tx pos ch" by (cases n)
    have ch: "ch = extractChildren kids depth" using ex d n by simp
    have "list_all2 (\<lambda>m (src, k). extractElement src k = Some m)
       (concat (map subnodes ch)) (keptOfNodes kids depth)"
      unfolding ch using 1 d by simp
    then show "list_all2 (\<lambda>m (src, k). extractElement src k = Some m)
       (subnodes n) (keptElements (Element p kids) depth)"
      using ex unfolding n by simp
  qed
next
  case (2 depth)
  show ?case by simp
next
  case (3 child rest depth)
  show ?case
  proof (cases "includedChild depth child")
    case True
    then have d: "Suc depth \<le> 15" by (simp add: includedChild_def)
    then obtain c where c: "extractElement child (Suc depth) = Some c"
      using extractElement_Some by blast
    have vis: "\<not> (tagName (props child) = ''SCRIPT'' \<or> tagName (props child) = ''STYLE'')"
      "0 < rect_width (boundingClientRect (props child))
       \<and> 0 < rect_height (boundingClientRect (props child))"
      using True by (auto simp: includedChild_def)
    have head: "list_all2 (\<lambda>m (src, k). extractElement src k = Some m)
        (subnodes c) (keptElements child (Suc depth))"
      using 3(2) [OF vis(1) refl vis(2)] c by simp
    have c': "extractElement child (depth + 1) = Some c" using c by simp
    have tail: "list_all2 (\<lambda>m (src, k). extractElement src k = Some m)
        (concat (map subnodes (extractChildren rest depth))) (keptOfNodes rest depth)"
      using 3(4) [OF vis(1) refl vis(2) c'] by simp
    have "extractChildren (ElementNode child # rest) depth = c # extractChildren rest depth"
      using vis c by simp
    then show ?thesis using True head tail by (simp add: list_all2_appendI)
  next
    case False
    then have skip: "extractChildren (ElementNode child # rest) depth = extractChildren rest depth"
      by (auto simp: includedChild_def Let_def split: option.splits
          dest: extractElement_Some_le)
    have "list_all2 (\<lambda>m (src, k). extractElement src k = Some m)
        (concat (map subnodes (extractChildren rest depth))) (keptOfNodes rest depth)"
    proof (cases "tagName (props child) = ''SCRIPT'' \<or> tagName (props child) = ''STYLE''")
      case True
      then show ?thesis using 3(1) by simp
    next
      case nt: False
      show ?thesis
      proof (cases "0 < rect_width (boundingClientRect (props child))
          \<and> 0 < rect_height (boundingClientRect (props child))")
        case True
        then have "extractElement child (depth + 1) = None"
          using False nt by (auto simp: includedChild_def extractElement_None)
        then show ?thesis using 3(3) [OF nt refl True] by simp
      next
        case False
        then show ?thesis using 3(5) [OF nt refl False] by simp
      qed
    qed
    then show ?thesis using False skip by simp
  qed
qed auto

text \<open>
  Claim C3: the snapshot that \<open>analyzeDOMStructure\<close> returns has no node deeper than 15
  below its root; more generally a node extracted at depth \<open>d\<close> has nothing deeper
  than 15 below the root, and past depth 15 \<open>extractElement\<close> returns \<open>null\<close>, which
  the loop over the children does not push.
\<close>

theorem snapshot_depth_bounded:
  "(dd_structure (analyzeDOMStructure doc) = Some snap \<longrightarrow> nodeDepth snap \<le> 15)
   \<and> (extractElement e d = Some n \<longrightarrow> d + nodeDepth n \<le> 15)
   \<and> (15 < d \<longrightarrow> extractElement e d = None)
   \<and> (\<forall>c \<in> set (extractChildren kids d). d + Suc (nodeDepth c) \<le> 15)"
proof -
  have "nodeDepth snap \<le> 15" if "dd_structure (analyzeDOMStructure doc) = Some snap"
  proof -
    from that obtain a where "extractElement a 0 = Some snap"
      by (auto simp: analyzeDOMStructure_def split: option.splits)
    then show ?thesis using extract_depth(1) [of a 0 snap] by simp
  qed
  then show ?thesis
    using extract_depth(1) [of e d n] extract_depth(2) [of kids d] extractElement_None [of e d]
    by blast
qed

theorem snapshot_depth_bounded_witness:
  "dd_structure (analyzeDOMStructure (bodyOnly (chainOf 20))) \<noteq> None
   \<and> nodeDepth (the (dd_structure (analyzeDOMStructure (bodyOnly (chainOf 20))))) \<le> 15
   \<and> 15 < (16::nat) \<and> extractElement (chainOf 3) 16 = None"
proof -
  have approot: "appRoot (bodyOnly (chainOf 20)) = Some (chainOf 20)"
    by (simp add: appRoot_def querySelector_def bodyOnly_def plain_def roleMain_def idRoot_def
        classApp_def eval_nat_numeral)
  then obtain r where r: "dd_structure (analyzeDOMStructure (bodyOnly (chainOf 20))) = Some r"
    using extractElement_Some [of 0 "chainOf 20"] by (auto simp: analyzeDOMStructure_def)
  have "(16::nat) > 15" by simp
  then show ?thesis
    using r snapshot_depth_bounded [of "bodyOnly (chainOf 20)" r "chainOf 3" 16]
    by simp
qed

lemma list_all2_memD:
  "list_all2 P xs ys \<Longrightarrow> x \<in> set xs \<Longrightarrow> \<exists>y \<in> set ys. P x y"
  by (induction rule: list_all2_induct) auto

lemma extractText_iff:
  "extractText e \<noteq> None \<longleftrightarrow> (\<exists>t. childNodes e = [TextNode t])"
proof (cases e)
  case (Element p kids)
  show ?thesis
  proof (cases kids)
    case Nil
    then show ?thesis using Element by (simp add: extractText_def)
  next
    case (Cons k rest)
    show ?thesis
    proof (cases rest)
      case Nil
      then show ?thesis using Element Cons by (cases k) (simp_all add: extractText_def)
    next
      case (Cons k' rest')
      then show ?thesis using Element \<open>kids = k # rest\<close> by (simp add: extractText_def)
    qed
  qed
qed

lemma extractText_single:
  "childNodes e = [TextNode t] \<Longrightarrow> extractText e = Some (trim t)"
  by (cases e) (simp add: extractText_def)






text \<open>
  Claim C5: for every node of a snapshot, paired with the element it was extracted
  from, the text field is populated exactly when that element has one child node and
  the child is a text node; it then holds the trimmed text of that child.
\<close>

theorem text_iff_single_text_child:
  assumes "extractElement e d = Some n"
  shows "list_all2
           (\<lambda>m (src, k).
              (textContent m \<noteq> None \<longleftrightarrow> (\<exists>t. childNodes src = [TextNode t]))
              \<and> (\<forall>t. childNodes src = [TextNode t] \<longrightarrow> textContent m = Some (trim t)))
           (subnodes n) (keptElements e d)"
proof -
  have nodes: "list_all2 (\<lambda>m (src, k). extractElement src k = Some m)
      (subnodes n) (keptElements e d)"
    using snapshot_nodes(1) [of e d n] assms by simp
  show ?thesis
  proof (rule list_all2_mono [OF nodes])
    fix m and sk :: "element \<times> nat"
    assume "case sk of (src, k) \<Rightarrow> extractElement src k = Some m"
    then obtain src k where sk: "sk = (src, k)" and ex: "extractElement src k = Some m"
      by (cases sk) auto
    have "textContent m = extractText src" using extractElement_fields(3) [OF ex] .
    then show "case sk of (src, k) \<Rightarrow>
        (textContent m \<noteq> None \<longleftrightarrow> (\<exists>t. childNodes src = [TextNode t]))
        \<and> (\<forall>t. childNodes src = [TextNode t] \<longrightarrow> textContent m = Some (trim t))"
      using extractText_iff [of src] extractText_single [of src] by (simp add: sk)
  qed
qed

theorem text_iff_single_text_child_witness:
  "extractElement (Element (plain ''DIV'' 100 100)
       [ElementNode (Element (plain ''P'' 20 10) [TextNode '' Hello '']),
        ElementNode (Element (plain ''SPAN'' 20 10) [TextNode ''a'', CommentNode ''b'']),
        ElementNode (Element (plain ''H1'' 20 10) [CommentNode ''c'']),
        ElementNode (Element (plain ''H2'' 20 10) [])]) 0 \<noteq> None
   \<and> map textContent (subnodes (the (extractElement (Element (plain ''DIV'' 100 100)
       [ElementNode (Element (plain ''P'' 20 10) [TextNode '' Hello '']),
        ElementNode (Element (plain ''SPAN'' 20 10) [TextNode ''a'', CommentNode ''b'']),
        ElementNode (Element (plain ''H1'' 20 10) [CommentNode ''c'']),
        ElementNode (Element (plain ''H2'' 20 10) [])]) 0)))
     = [None, Some ''Hello'', None, None, None]
   \<and> list_all2 (\<lambda>m sk. (textContent m \<noteq> None) = (\<exists>t. childNodes (fst sk) = [TextNode t]))
       (subnodes (the (extractElement (Element (plain ''DIV'' 100 100)
         [ElementNode (Element (plain ''P'' 20 10) [TextNode '' Hello '']),
          ElementNode (Element (plain ''SPAN'' 20 10) [TextNode ''a'', CommentNode ''b'']),
          ElementNode (Element (plain ''H1'' 20 10) [CommentNode ''c'']),
          ElementNode (Element (plain ''H2'' 20 10) [])]) 0)))
       (keptElements (Element (plain ''DIV'' 100 100)
         [ElementNode (Element (plain ''P'' 20 10) [TextNode '' Hello '']),
          ElementNode (Element (plain ''SPAN'' 20 10) [TextNode ''a'', CommentNode ''b'']),
          ElementNode (Element (plain ''H1'' 20 10) [CommentNode ''c'']),
          ElementNode (Element (plain ''H2'' 20 10) [])]) 0)"
proof -
  define E where "E = Element (plain ''DIV'' 100 100)
       [ElementNode (Element (plain ''P'' 20 10) [TextNode '' Hello '']),
        ElementNode (Element (plain ''SPAN'' 20 10) [TextNode ''a'', CommentNode ''b'']),
        ElementNode (Element (plain ''H1'' 20 10) [CommentNode ''c'']),
        ElementNode (Element (plain ''H2'' 20 10) [])]"
  obtain n where n: "extractElement E 0 = Some n"
    using extractElement_Some [of 0 E] by auto
  have texts: "map textContent (subnodes (the (extractElement E 0)))
      = [None, Some ''Hello'', None, None, None]"
    by (simp add: E_def plain_def Let_def extractText_def trim_def isSpace_def)
  have "list_all2 (\<lambda>m sk. (textContent m \<noteq> None) = (\<exists>t. childNodes (fst sk) = [TextNode t]))
      (subnodes n) (keptElements E 0)"
    by (rule list_all2_mono [OF text_iff_single_text_child [OF n]]) auto
  then show ?thesis using n texts unfolding E_def by simp
qed

text \<open>
  Claim C10: whatever root \<open>analyzeDOMStructure\<close> detects becomes the root node of the
  snapshot, with its own tag and box, whether or not that box has positive width and
  height; the test on the box is made on the children only, each of which has a box of
  strictly positive width and height.
\<close>

theorem detected_root_always_included:
  assumes "appRoot doc = Some e"
  shows "\<exists>snap. dd_structure (analyzeDOMStructure doc) = Some snap
           \<and> tag snap = toLowerCase (tagName (props e))
           \<and> position snap = boundingClientRect (props e)
           \<and> children snap = extractChildren (childNodes e) 0
           \<and> (\<forall>c \<in> set (children snap).
                 0 < rect_width (position c) \<and> 0 < rect_height (position c))"
proof -
  obtain snap where snap: "extractElement e 0 = Some snap"
    using extractElement_Some [of 0 e] by auto
  have "0 < rect_width (position c) \<and> 0 < rect_height (position c)"
    if c: "c \<in> set (children snap)" for c
  proof -
    have "list_all2 (\<lambda>c s. extractElement s (Suc 0) = Some c) (children snap)
        (filter (includedChild 0) (elementChildren (childNodes e)))"
      using extractChildren_included [of 0 "childNodes e"] extractElement_fields(4) [OF snap]
      by simp
    from list_all2_memD [OF this c] obtain s where
      "includedChild 0 s" "extractElement s (Suc 0) = Some c" by auto
    then show ?thesis using extractElement_fields(2) [of s "Suc 0" c]
      by (simp add: includedChild_def)
  qed
  then show ?thesis
    using assms snap extractElement_fields(1,2,4) [OF snap]
    by (simp add: analyzeDOMStructure_def)
qed

theorem detected_root_always_included_witness:
  "appRoot (bodyOnly (Element (plain ''BODY'' 0 0)
       [ElementNode (Element (plain ''DIV'' 0 0) []),
        ElementNode (Element (plain ''MAIN'' 800 600) [])]))
     = Some (Element (plain ''BODY'' 0 0)
       [ElementNode (Element (plain ''DIV'' 0 0) []),
        ElementNode (Element (plain ''MAIN'' 800 600) [])])
   \<and> dd_structure (analyzeDOMStructure (bodyOnly (Element (plain ''BODY'' 0 0)
       [ElementNode (Element (plain ''DIV'' 0 0) []),
        ElementNode (Element (plain ''MAIN'' 800 600) [])]))) \<noteq> None
   \<and> rect_width (position (the (dd_structure (analyzeDOMStructure
       (bodyOnly (Element (plain ''BODY'' 0 0)
         [ElementNode (Element (plain ''DIV'' 0 0) []),
          ElementNode (Element (plain ''MAIN'' 800 600) [])])))))) = 0
   \<and> map tag (children (the (dd_structure (analyzeDOMStructure
       (bodyOnly (Element (plain ''BODY'' 0 0)
         [ElementNode (Element (plain ''DIV'' 0 0) []),
          ElementNode (Element (plain ''MAIN'' 800 600) [])])))))) = [''main'']"
proof -
  define E where "E = Element (plain ''BODY'' 0 0)
       [ElementNode (Element (plain ''DIV'' 0 0) []),
        ElementNode (Element (plain ''MAIN'' 800 600) [])]"
  have approot: "appRoot (bodyOnly E) = Some E"
    by (simp add: appRoot_def querySelector_def bodyOnly_def plain_def roleMain_def idRoot_def
        classApp_def E_def)
  from detected_root_always_included [OF approot] obtain snap where
    snap: "dd_structure (analyzeDOMStructure (bodyOnly E)) = Some snap"
      "position snap = boundingClientRect (props E)"
      "children snap = extractChildren (childNodes E) 0"
    by blast
  have "rect_width (position snap) = 0" using snap(2) by (simp add: E_def plain_def)
  moreover have "map tag (children snap) = [''main'']"
    unfolding snap(3) by (simp add: E_def plain_def Let_def toLowerCase_def lowerChar_def)
  ultimately show ?thesis using approot snap(1) unfolding E_def by simp
qed

section \<open>Comparison engine: scores\<close>

text \<open>When every property matches, a selector adds eight matches and no mismatch.\<close>

lemma fold_compareProperty_all_match:
  assumes "\<forall>k \<in> set ks. cssValuesMatch (Some (os k)) (Some (gs k))"
  shows "mismatches (fold (compareProperty sel os gs) ks acc) = mismatches acc
       \<and> length (matches (fold (compareProperty sel os gs) ks acc)) = length (matches acc) + length ks"
  using assms
  by (induction ks arbitrary: acc) (auto simp: compareProperty_def Let_def)

lemma compareSelector_all_match:
  assumes "op sel = Some (Some os # orest)" "gp sel = Some (Some gs # grest)"
    and all: "\<forall>k \<in> set styleKeys. cssValuesMatch (Some (os k)) (Some (gs k))"
  shows "mismatches (compareSelector op gp sel acc) = mismatches acc
       \<and> length (matches (compareSelector op gp sel acc)) = length (matches acc) + 8"
proof -
  have "length styleKeys = 8" by (simp add: styleKeys_def)
  then show ?thesis
    using fold_compareProperty_all_match [where ks = styleKeys and os = os and gs = gs
        and sel = sel and acc = acc] all assms(1,2)
    by (simp add: compareSelector_def)
qed

lemma fold_compareSelector_all_match:
  assumes "\<forall>sel \<in> set sels. \<exists>os orest gs grest.
      op sel = Some (Some os # orest) \<and> gp sel = Some (Some gs # grest)
      \<and> (\<forall>k \<in> set styleKeys. cssValuesMatch (Some (os k)) (Some (gs k)))"
  shows "mismatches (fold (compareSelector op gp) sels acc) = mismatches acc
       \<and> length (matches (fold (compareSelector op gp) sels acc))
           = length (matches acc) + 8 * length sels"
  using assms
proof (induction sels arbitrary: acc)
  case Nil
  then show ?case by simp
next
  case (Cons sel sels)
  from Cons.prems obtain os orest gs grest where sel:
    "op sel = Some (Some os # orest)" "gp sel = Some (Some gs # grest)"
    "\<forall>k \<in> set styleKeys. cssValuesMatch (Some (os k)) (Some (gs k))"
    by auto
  have "mismatches (compareSelector op gp sel acc) = mismatches acc
       \<and> length (matches (compareSelector op gp sel acc)) = length (matches acc) + 8"
    using sel by (rule compareSelector_all_match)
  then show ?case
    using Cons.IH [of "compareSelector op gp sel acc"] Cons.prems by simp
qed

lemma toFixed2_100: "toFixed2 (Num 100) = ''100.00''"
proof -
  have "\<lfloor>(20001::rat) / 2\<rfloor> = 10000" by (simp add: floor_eq_iff)
  then show ?thesis by (simp add: digitChar_def)
qed


text \<open>
  Claim C8: for two loaded pages the score is \<open>matches / (matches + mismatches) * 100\<close>
  (\<open>NaN\<close> when nothing was compared), the page passes exactly when the score is at
  least 80, and the reported percentage is the score with two decimals. When every
  selector has a first element on both sides and all its property values match, the
  page passes with \<open>"100.00"\<close> and no mismatch.
\<close>

theorem comparePages_score:
  "(let cmp = compareCSSProperties originalPage generatedPage;
        m = length (matches cmp); k = length (mismatches cmp);
        result = comparePages (Inr originalPage) (Inr generatedPage) pageName
    in pr_cssMatches result = matches cmp \<and> pr_cssMismatches result = mismatches cmp
       \<and> pr_matchPercentage result = Some (toFixed2 (percentageOf m k))
       \<and> pr_passed result = atLeast80 (percentageOf m k)
       \<and> (0 < m + k \<longrightarrow>
             percentageOf m k = Num (of_nat m / of_nat (m + k) * 100)
             \<and> (pr_passed result \<longleftrightarrow> of_nat m / of_nat (m + k) * 100 \<ge> (80::rat))))
   \<and> ((\<forall>sel \<in> set selectors. \<exists>os orest gs grest.
          originalPage sel = Some (Some os # orest) \<and> generatedPage sel = Some (Some gs # grest)
          \<and> (\<forall>k \<in> set styleKeys. cssValuesMatch (Some (os k)) (Some (gs k))))
        \<longrightarrow> pr_passed (comparePages (Inr originalPage) (Inr generatedPage) pageName)
          \<and> pr_matchPercentage (comparePages (Inr originalPage) (Inr generatedPage) pageName)
              = Some ''100.00''
          \<and> pr_cssMismatches (comparePages (Inr originalPage) (Inr generatedPage) pageName) = []
          \<and> length (pr_cssMatches (comparePages (Inr originalPage) (Inr generatedPage) pageName))
              = 80)"
proof -
  have general: "(let cmp = compareCSSProperties originalPage generatedPage;
        m = length (matches cmp); k = length (mismatches cmp);
        result = comparePages (Inr originalPage) (Inr generatedPage) pageName
    in pr_cssMatches result = matches cmp \<and> pr_cssMismatches result = mismatches cmp
       \<and> pr_matchPercentage result = Some (toFixed2 (percentageOf m k))
       \<and> pr_passed result = atLeast80 (percentageOf m k)
       \<and> (0 < m + k \<longrightarrow>
             percentageOf m k = Num (of_nat m / of_nat (m + k) * 100)
             \<and> (pr_passed result \<longleftrightarrow> of_nat m / of_nat (m + k) * 100 \<ge> (80::rat))))"
    by (simp add: comparePages_def Let_def percentageOf_def)
  have scenario: "pr_passed (comparePages (Inr originalPage) (Inr generatedPage) pageName)
          \<and> pr_matchPercentage (comparePages (Inr originalPage) (Inr generatedPage) pageName)
              = Some ''100.00''
          \<and> pr_cssMismatches (comparePages (Inr originalPage) (Inr generatedPage) pageName) = []
          \<and> length (pr_cssMatches (comparePages (Inr originalPage) (Inr generatedPage) pageName))
              = 80"
    if all: "\<forall>sel \<in> set selectors. \<exists>os orest gs grest.
          originalPage sel = Some (Some os # orest) \<and> generatedPage sel = Some (Some gs # grest)
          \<and> (\<forall>k \<in> set styleKeys. cssValuesMatch (Some (os k)) (Some (gs k)))"
  proof -
    have len: "length selectors = 10" by (simp add: selectors_def)
    have cmp: "mismatches (compareCSSProperties originalPage generatedPage) = []"
      "length (matches (compareCSSProperties originalPage generatedPage)) = 80"
      using fold_compareSelector_all_match [OF all, of "\<lparr>matches = [], mismatches = []\<rparr>"] len
      by (simp_all add: compareCSSProperties_def)
    have pct: "percentageOf 80 0 = Num 100" by (simp add: percentageOf_def)
    show ?thesis
      by (simp add: comparePages_def Let_def cmp pct toFixed2_100 del: toFixed2.simps)
  qed
  from general scenario show ?thesis by blast
qed

theorem comparePages_score_witness:
  "pr_passed (comparePages (Inr (\<lambda>sel. Some [Some (\<lambda>k. ''rgb(0, 0, 0)'')]))
       (Inr (\<lambda>sel. Some [Some (\<lambda>k. ''RGB(0,  0, 0) '')])) ''home'')
   \<and> pr_matchPercentage (comparePages (Inr (\<lambda>sel. Some [Some (\<lambda>k. ''rgb(0, 0, 0)'')]))
       (Inr (\<lambda>sel. Some [Some (\<lambda>k. ''RGB(0,  0, 0) '')])) ''home'') = Some ''100.00''
   \<and> pr_cssMismatches (comparePages (Inr (\<lambda>sel. Some [Some (\<lambda>k. ''rgb(0, 0, 0)'')]))
       (Inr (\<lambda>sel. Some [Some (\<lambda>k. ''RGB(0,  0, 0) '')])) ''home'') = []"
proof -
  have val: "cssValuesMatch (Some ''rgb(0, 0, 0)'') (Some ''RGB(0,  0, 0) '')"
    by (simp add: cssValuesMatch_def normalize_def trim_def toLowerCase_def lowerChar_def
        isSpace_def)
  have "\<forall>sel \<in> set selectors. \<exists>os orest gs grest.
      (\<lambda>sel. Some [Some (\<lambda>k. ''rgb(0, 0, 0)'')]) sel = Some (Some os # orest)
      \<and> (\<lambda>sel. Some [Some (\<lambda>k. ''RGB(0,  0, 0) '')]) sel = Some (Some gs # grest)
      \<and> (\<forall>k \<in> set styleKeys. cssValuesMatch (Some (os k)) (Some (gs k)))"
    using val by simp
  then show ?thesis
    using comparePages_score [of "\<lambda>sel. Some [Some (\<lambda>k. ''rgb(0, 0, 0)'')]"
        "\<lambda>sel. Some [Some (\<lambda>k. ''RGB(0,  0, 0) '')]" "''home''"]
    by blast
qed

section \<open>Comparison engine: exchanging the two pages\<close>













end
